theory Spec2Isabelle
  imports Complex_Main
begin

section \<open>The store: host objects and device buffers\<close>

text \<open>
  The accessors of \<^verbatim>\<open>cpp/src/c_api/edgelist.cpp\<close> work on raw pointers: they
  reinterpret the opaque handle as a pointer to the container, read one of its six
  pointer fields and call \<^verbatim>\<open>view()\<close> on the array found there; the destructor
  runs \<^verbatim>\<open>delete\<close> on the six fields and on the container. The model therefore has
  an explicit store. An address is a natural number and \<open>0\<close> is the null pointer.
  A heap is an association list from addresses to objects, so that the address
  \<^verbatim>\<open>new\<close> hands out can be computed. Dereferencing an address that holds no
  object of the expected type has no defined meaning in C++; the model returns the
  fault \<open>Undefined_behaviour\<close> there, and every function propagates it.
\<close>

type_synonym addr = nat

text \<open>
  Modelled from the spec: the element type tag of a buffer, 'one of a fixed set of
  primitive numeric kinds' (the enumeration is declared in a header that is not among
  the sources): the 32- and 64-bit integers and floating-point numbers of the design
  notes, and the size type of the offsets.
\<close>

datatype data_type_id = INT32 | INT64 | FLOAT32 | FLOAT64 | SIZE_T

text \<open>
  The elements of a buffer. The accessors hand buffers on and never compute with their
  elements, so an integer element is an \<open>int\<close> and a floating-point element a
  \<open>real\<close>.
\<close>

datatype scalar = Int_val int | Float_val real

text \<open>
  Modelled from the spec: the View (declared in a header that is not among the sources),
  the non-owning tuple (type, length, address) borrowed from an Array.
\<close>

record cugraph_type_erased_device_array_view_t =
  view_type :: data_type_id
  view_size :: nat
  view_data :: addr

text \<open>
  Modelled from the spec: the Type-Erased Array (declared in a header that is not among
  the sources). It owns one device buffer, here the address of the buffer in device
  memory, and knows its element type and length.
\<close>

record cugraph_type_erased_device_array_t =
  array_type :: data_type_id
  array_size :: nat
  array_data :: addr

text \<open>
  The container \<^verbatim>\<open>cugraph::c_api::cugraph_edgelist_t\<close> (its declaration is in a
  header that is not among the sources), with the six pointer fields the source reads:
  \<^verbatim>\<open>src_\<close>, \<^verbatim>\<open>dst_\<close>, \<^verbatim>\<open>wgt_\<close>, \<^verbatim>\<open>edge_ids_\<close>,
  \<^verbatim>\<open>edge_type_ids_\<close> and \<^verbatim>\<open>subgraph_offsets_\<close> (an Isabelle name cannot end
  with an underscore).
\<close>

record cugraph_edgelist_t =
  src :: addr
  dst :: addr
  wgt :: addr
  edge_ids :: addr
  edge_type_ids :: addr
  subgraph_offsets :: addr

text \<open>The objects of host memory.\<close>

datatype object =
    Edgelist cugraph_edgelist_t
  | Array cugraph_type_erased_device_array_t
  | View cugraph_type_erased_device_array_view_t

text \<open>
  A heap: the first pair with an address is the object there; nothing lives at the null
  pointer; \<^verbatim>\<open>new\<close> takes an address above every address in use; \<^verbatim>\<open>delete\<close>
  removes the object.
\<close>

type_synonym 'a heap = "(addr \<times> 'a) list"

definition heap_lookup :: "'a heap \<Rightarrow> addr \<Rightarrow> 'a option" where
  "heap_lookup h p = (if p = 0 then None else map_of h p)"

definition heap_fresh :: "'a heap \<Rightarrow> addr" where
  "heap_fresh h = Suc (fold max (map fst h) 0)"

definition heap_new :: "'a heap \<Rightarrow> 'a \<Rightarrow> addr \<times> 'a heap" where
  "heap_new h x = (heap_fresh h, (heap_fresh h, x) # h)"

definition heap_delete :: "addr \<Rightarrow> 'a heap \<Rightarrow> 'a heap" where
  "heap_delete p h = filter (\<lambda>kv. fst kv \<noteq> p) h"

text \<open>
  The store: host memory, device memory (the buffers, each with its elements), and the
  capacity of the device in elements (only the allocation of a buffer reads it).
\<close>

record state =
  host :: "object heap"
  device :: "scalar list heap"
  device_capacity :: nat

text \<open>
  A call returns its result, or it has no defined behaviour. The API has no other
  failure: the getters return a pointer and the destructor returns nothing.
\<close>

datatype fault = Undefined_behaviour

definition result_bind :: "fault + 'a \<Rightarrow> ('a \<Rightarrow> fault + 'b) \<Rightarrow> fault + 'b" where
  "result_bind m f = (case m of Inl e \<Rightarrow> Inl e | Inr x \<Rightarrow> f x)"

text \<open>
  \<^verbatim>\<open>reinterpret_cast<cugraph::c_api::cugraph_edgelist_t*>(edgelist)\<close> followed by a
  member access through \<^verbatim>\<open>internal_pointer\<close>: defined only when a container lives
  at the address. Likewise for a member access through a pointer to an array.
\<close>

definition deref_edgelist :: "state \<Rightarrow> addr \<Rightarrow> fault + cugraph_edgelist_t" where
  "deref_edgelist s p =
     (case heap_lookup (host s) p of
        Some (Edgelist e) \<Rightarrow> Inr e
      | _ \<Rightarrow> Inl Undefined_behaviour)"

definition deref_array :: "state \<Rightarrow> addr \<Rightarrow> fault + cugraph_type_erased_device_array_t" where
  "deref_array s p =
     (case heap_lookup (host s) p of
        Some (Array a) \<Rightarrow> Inr a
      | _ \<Rightarrow> Inl Undefined_behaviour)"

text \<open>
  Modelled from the spec: the array's \<^verbatim>\<open>view()\<close> method (declared in a header that
  is not among the sources). The Array mints a non-owning View that borrows its
  buffer: the descriptor (type, length, address), with nothing copied. The getters
  cast the result to a pointer, so the View is an object of its own at a new
  address; the array and its buffer stay as they are. Host memory is not bounded in
  the model: \<^verbatim>\<open>new\<close> always finds an address.
\<close>

definition view :: "state \<Rightarrow> addr \<Rightarrow> fault + (addr \<times> state)" where
  "view s a =
     result_bind (deref_array s a) (\<lambda>arr.
       case heap_new (host s)
              (View \<lparr>view_type = array_type arr, view_size = array_size arr,
                     view_data = array_data arr\<rparr>) of
         (p, h) \<Rightarrow> Inr (p, s\<lparr>host := h\<rparr>))"

text \<open>
  Modelled from the spec: \<^verbatim>\<open>delete\<close> of an array pointer. Deleting the null pointer
  does nothing (as for every C++ pointer); deleting a live Array releases its device
  buffer and the Array itself; anything else (a dangling pointer, an object of another
  type, a buffer that is gone) is undefined.
\<close>

definition delete_array :: "state \<Rightarrow> addr \<Rightarrow> fault + state" where
  "delete_array s p =
     (if p = 0 then Inr s
      else result_bind (deref_array s p) (\<lambda>arr.
        case heap_lookup (device s) (array_data arr) of
          None \<Rightarrow> Inl Undefined_behaviour
        | Some xs \<Rightarrow>
            Inr (s\<lparr>host := heap_delete p (host s),
                   device := heap_delete (array_data arr) (device s)\<rparr>)))"

text \<open>\<^verbatim>\<open>delete internal_pointer\<close>: the container has no destructor of its own.\<close>

definition delete_edgelist :: "state \<Rightarrow> addr \<Rightarrow> fault + state" where
  "delete_edgelist s p =
     (if p = 0 then Inr s
      else result_bind (deref_edgelist s p) (\<lambda>e.
        Inr (s\<lparr>host := heap_delete p (host s)\<rparr>)))"

section \<open>The accessor API\<close>

text \<open>Each getter returns the pointer to the View (\<open>0\<close> for \<^verbatim>\<open>NULL\<close>) and the store.\<close>

definition cugraph_edgelist_get_sources :: "state \<Rightarrow> addr \<Rightarrow> fault + (addr \<times> state)" where
  "cugraph_edgelist_get_sources s edgelist =
     result_bind (deref_edgelist s edgelist) (\<lambda>internal_pointer.
       view s (src internal_pointer))"

definition cugraph_edgelist_get_destinations :: "state \<Rightarrow> addr \<Rightarrow> fault + (addr \<times> state)" where
  "cugraph_edgelist_get_destinations s edgelist =
     result_bind (deref_edgelist s edgelist) (\<lambda>internal_pointer.
       view s (dst internal_pointer))"

definition cugraph_edgelist_get_edge_weights :: "state \<Rightarrow> addr \<Rightarrow> fault + (addr \<times> state)" where
  "cugraph_edgelist_get_edge_weights s edgelist =
     result_bind (deref_edgelist s edgelist) (\<lambda>internal_pointer.
       if wgt internal_pointer = 0 then Inr (0, s)
       else view s (wgt internal_pointer))"

definition cugraph_edgelist_get_edge_ids :: "state \<Rightarrow> addr \<Rightarrow> fault + (addr \<times> state)" where
  "cugraph_edgelist_get_edge_ids s edgelist =
     result_bind (deref_edgelist s edgelist) (\<lambda>internal_pointer.
       if edge_ids internal_pointer = 0 then Inr (0, s)
       else view s (edge_ids internal_pointer))"

definition cugraph_edgelist_get_edge_type_ids :: "state \<Rightarrow> addr \<Rightarrow> fault + (addr \<times> state)" where
  "cugraph_edgelist_get_edge_type_ids s edgelist =
     result_bind (deref_edgelist s edgelist) (\<lambda>internal_pointer.
       if edge_type_ids internal_pointer = 0 then Inr (0, s)
       else view s (edge_type_ids internal_pointer))"

definition cugraph_edgelist_get_edge_offsets :: "state \<Rightarrow> addr \<Rightarrow> fault + (addr \<times> state)" where
  "cugraph_edgelist_get_edge_offsets s edgelist =
     result_bind (deref_edgelist s edgelist) (\<lambda>internal_pointer.
       view s (subgraph_offsets internal_pointer))"

text \<open>The destructor: seven \<^verbatim>\<open>delete\<close> statements, each reading its field through
  \<^verbatim>\<open>internal_pointer\<close> in the store the previous statement left.\<close>

definition cugraph_edgelist_free :: "state \<Rightarrow> addr \<Rightarrow> fault + state" where
  "cugraph_edgelist_free s edgelist =
     result_bind (deref_edgelist s edgelist) (\<lambda>ip1.
     result_bind (delete_array s (src ip1)) (\<lambda>s1.
     result_bind (deref_edgelist s1 edgelist) (\<lambda>ip2.
     result_bind (delete_array s1 (dst ip2)) (\<lambda>s2.
     result_bind (deref_edgelist s2 edgelist) (\<lambda>ip3.
     result_bind (delete_array s2 (wgt ip3)) (\<lambda>s3.
     result_bind (deref_edgelist s3 edgelist) (\<lambda>ip4.
     result_bind (delete_array s3 (edge_ids ip4)) (\<lambda>s4.
     result_bind (deref_edgelist s4 edgelist) (\<lambda>ip5.
     result_bind (delete_array s4 (edge_type_ids ip5)) (\<lambda>s5.
     result_bind (deref_edgelist s5 edgelist) (\<lambda>ip6.
     result_bind (delete_array s5 (subgraph_offsets ip6)) (\<lambda>s6.
     delete_edgelist s6 edgelist))))))))))))"

section \<open>The producer\<close>

text \<open>
  The code that builds a Result (the graph-extraction operation and the constructors of
  the arrays) is not among the sources. The definitions of this section model it from the
  spec, as far as two properties of the spec need it: the packing of several subgraphs
  behind one offsets array, and the all-or-nothing construction.
\<close>

text \<open>
  Modelled from the spec: one field the producer is about to populate, an element type
  tag together with the values of the device buffer to be.
\<close>

record column =
  col_type :: data_type_id
  col_values :: "scalar list"

text \<open>
  Modelled from the spec: what the producer has computed when it starts to build the
  Result (the producer itself is not among the sources). The sources and destinations
  are mandatory, the weights, edge ids and edge type ids independently optional, and
  \<open>ex_counts\<close> lists, subgraph by subgraph, how many edges each subgraph contributes
  ('subgraph 0 contributes 2 edges, subgraph 1 contributes 3 edges').
\<close>

record extraction =
  ex_sources :: column
  ex_destinations :: column
  ex_weights :: "column option"
  ex_edge_ids :: "column option"
  ex_edge_type_ids :: "column option"
  ex_counts :: "nat list"

text \<open>
  Modelled from the spec: the construction failures of its taxonomy, 'inability to
  allocate or fully populate a mandatory field'.
\<close>

datatype construction_failure = Cannot_populate | Cannot_allocate

text \<open>
  Modelled from the spec: the offsets of the packed subgraphs (the code that computes
  them is not among the sources). The edges of subgraph \<open>i\<close> occupy
  \<open>offsets[i] .. offsets[i+1]\<close>, so each offset is the number of edges of the subgraphs
  before it: counts \<open>[2, 3]\<close> give offsets \<open>[0, 2, 5]\<close>.
\<close>

fun offsets_from :: "nat \<Rightarrow> nat list \<Rightarrow> nat list" where
  "offsets_from a [] = [a]"
| "offsets_from a (c # cs) = a # offsets_from (a + c) cs"

text \<open>
  Modelled from the spec: the offsets as the elements of the offsets array.
\<close>

definition packed_offsets :: "nat list \<Rightarrow> scalar list" where
  "packed_offsets counts = map (\<lambda>n. Int_val (int n)) (offsets_from 0 counts)"

text \<open>
  Modelled from the spec: device memory is 'an explicitly managed, scarce resource'
  (the allocator is not among the sources). The store has a capacity, counted in
  elements, and the live buffers use up their lengths.
\<close>

definition device_used :: "scalar list heap \<Rightarrow> nat" where
  "device_used d = sum_list (map (\<lambda>kv. length (snd kv)) d)"

text \<open>
  Modelled from the spec: the allocation of one device buffer (the allocator is not among
  the sources). It fails when the capacity does not suffice; otherwise the buffer gets a
  fresh device address.
\<close>

definition device_alloc :: "state \<Rightarrow> scalar list \<Rightarrow> (addr \<times> state) option" where
  "device_alloc s xs =
     (if device_capacity s < device_used (device s) + length xs then None
      else case heap_new (device s) xs of (d, h) \<Rightarrow> Some (d, s\<lparr>device := h\<rparr>))"

text \<open>
  Modelled from the spec: the construction of a Type-Erased Array (its constructor is
  not among the sources): the Array owns exactly one, newly allocated device buffer and
  records its element type and length. \<open>None\<close> when the buffer cannot be allocated.
\<close>

definition new_array :: "state \<Rightarrow> column \<Rightarrow> (addr \<times> state) option" where
  "new_array s c =
     (case device_alloc s (col_values c) of
        None \<Rightarrow> None
      | Some (d, s1) \<Rightarrow>
          (case heap_new (host s1)
                  (Array \<lparr>array_type = col_type c, array_size = length (col_values c),
                          array_data = d\<rparr>) of
             (p, h) \<Rightarrow> Some (p, s1\<lparr>host := h\<rparr>)))"

text \<open>
  Modelled from the spec: the producer allocates the fields one after the other (the
  producer is not among the sources); an absent optional field is the null pointer. The
  result is whether every allocation succeeded, the arrays made (up to the failure), and
  the store.
\<close>

fun new_arrays :: "state \<Rightarrow> column option list \<Rightarrow> bool \<times> addr list \<times> state" where
  "new_arrays s [] = (True, [], s)"
| "new_arrays s (None # cs) =
     (case new_arrays s cs of (ok, ps, s') \<Rightarrow> (ok, 0 # ps, s'))"
| "new_arrays s (Some c # cs) =
     (case new_array s c of
        None \<Rightarrow> (False, [], s)
      | Some (p, s1) \<Rightarrow> (case new_arrays s1 cs of (ok, ps, s') \<Rightarrow> (ok, p # ps, s')))"

text \<open>
  \<^verbatim>\<open>delete\<close> of several array pointers, one after the other.
\<close>

fun delete_arrays :: "state \<Rightarrow> addr list \<Rightarrow> fault + state" where
  "delete_arrays s [] = Inr s"
| "delete_arrays s (p # ps) = result_bind (delete_array s p) (\<lambda>s'. delete_arrays s' ps)"

text \<open>
  Modelled from the spec: invariant 1 of the data model for one optional field ('if
  present, length N'), checked by the producer (which is not among the sources).
\<close>

definition column_fits :: "nat \<Rightarrow> column option \<Rightarrow> bool" where
  "column_fits n c = (case c of None \<Rightarrow> True | Some col \<Rightarrow> length (col_values col) = n)"

text \<open>
  Modelled from the spec: the data of an extraction can populate a Result when it
  satisfies the length invariants of the data model (the producer, which has to ensure
  them, is not among the sources): the mandatory and the present optional fields have
  the same length \<open>N\<close>, there is at least one subgraph, and the subgraphs contribute
  \<open>N\<close> edges together.
\<close>

definition populatable :: "extraction \<Rightarrow> bool" where
  "populatable ex =
     (length (col_values (ex_destinations ex)) = length (col_values (ex_sources ex)) \<and>
      column_fits (length (col_values (ex_sources ex))) (ex_weights ex) \<and>
      column_fits (length (col_values (ex_sources ex))) (ex_edge_ids ex) \<and>
      column_fits (length (col_values (ex_sources ex))) (ex_edge_type_ids ex) \<and>
      ex_counts ex \<noteq> [] \<and>
      sum_list (ex_counts ex) = length (col_values (ex_sources ex)))"

text \<open>
  Modelled from the spec: the six fields of the Result in the order of the container
  (the producer is not among the sources); the offsets array is computed from the counts.
\<close>

definition produced_columns :: "extraction \<Rightarrow> column option list" where
  "produced_columns ex =
     [Some (ex_sources ex), Some (ex_destinations ex), ex_weights ex,
      ex_edge_ids ex, ex_edge_type_ids ex,
      Some \<lparr>col_type = SIZE_T, col_values = packed_offsets (ex_counts ex)\<rparr>]"

text \<open>
  Modelled from the spec: the construction of a Result (the producer is not among the
  sources). 'If the producer cannot allocate or populate every mandatory field, no
  handle is returned and any partial allocations already made are released
  internally': data that cannot populate a Result is refused before anything is
  allocated; when an allocation fails, the arrays made so far are deleted, the last one
  first, and the failure is reported; otherwise the container is allocated and its
  handle returned. (The third branch, a successful allocation of other than six
  arrays, cannot be reached.)
\<close>

definition produce_edgelist ::
  "state \<Rightarrow> extraction \<Rightarrow> fault + ((construction_failure + addr) \<times> state)" where
  "produce_edgelist s ex =
     (if \<not> populatable ex then Inr (Inl Cannot_populate, s)
      else
        case new_arrays s (produced_columns ex) of
          (False, ps, s1) \<Rightarrow>
            result_bind (delete_arrays s1 (rev ps)) (\<lambda>s2. Inr (Inl Cannot_allocate, s2))
        | (True, [a, b, c, d, e, f], s1) \<Rightarrow>
            (case heap_new (host s1)
                    (Edgelist \<lparr>src = a, dst = b, wgt = c, edge_ids = d, edge_type_ids = e,
                               subgraph_offsets = f\<rparr>) of
               (h, hp) \<Rightarrow> Inr (Inr h, s1\<lparr>host := hp\<rparr>))
        | (True, ps, s1) \<Rightarrow> Inl Undefined_behaviour)"

section \<open>Specification vocabulary\<close>

text \<open>
  The predicates and observations the properties are stated with. None of them is part
  of the program.
\<close>

text \<open>
  The six fields of a Result, to speak about the six getters at once.
\<close>

datatype field = Sources | Destinations | Edge_weights | Edge_ids | Edge_type_ids | Edge_offsets

text \<open>
  The getter of a field, the pointer the getter reads, and whether the getter checks
  the pointer against null (the three optional fields).
\<close>

fun getter :: "field \<Rightarrow> state \<Rightarrow> addr \<Rightarrow> fault + (addr \<times> state)" where
  "getter Sources = cugraph_edgelist_get_sources"
| "getter Destinations = cugraph_edgelist_get_destinations"
| "getter Edge_weights = cugraph_edgelist_get_edge_weights"
| "getter Edge_ids = cugraph_edgelist_get_edge_ids"
| "getter Edge_type_ids = cugraph_edgelist_get_edge_type_ids"
| "getter Edge_offsets = cugraph_edgelist_get_edge_offsets"

fun field_ptr :: "field \<Rightarrow> cugraph_edgelist_t \<Rightarrow> addr" where
  "field_ptr Sources = src"
| "field_ptr Destinations = dst"
| "field_ptr Edge_weights = wgt"
| "field_ptr Edge_ids = edge_ids"
| "field_ptr Edge_type_ids = edge_type_ids"
| "field_ptr Edge_offsets = subgraph_offsets"

fun optional :: "field \<Rightarrow> bool" where
  "optional Edge_weights = True"
| "optional Edge_ids = True"
| "optional Edge_type_ids = True"
| "optional f = False"

text \<open>
  The pointers of a list that are not null.
\<close>

definition nonnull :: "addr list \<Rightarrow> addr list" where
  "nonnull ps = filter (\<lambda>p. p \<noteq> 0) ps"

text \<open>
  The arrays a container owns: its non-null fields.
\<close>

definition owned :: "cugraph_edgelist_t \<Rightarrow> addr list" where
  "owned e = filter (\<lambda>p. p \<noteq> 0)
     [src e, dst e, wgt e, edge_ids e, edge_type_ids e, subgraph_offsets e]"

text \<open>
  The optional arrays a container owns: its optional fields that are not null.
\<close>

definition present_optional :: "cugraph_edgelist_t \<Rightarrow> addr list" where
  "present_optional e = nonnull [wgt e, edge_ids e, edge_type_ids e]"

text \<open>
  A live array: an Array object whose device buffer is allocated.
\<close>

definition live_array :: "state \<Rightarrow> addr \<Rightarrow> bool" where
  "live_array s p =
     (case deref_array s p of
        Inl f \<Rightarrow> False
      | Inr arr \<Rightarrow> heap_lookup (device s) (array_data arr) \<noteq> None)"

text \<open>
  The device address of the buffer of the array at \<open>p\<close>.
\<close>

definition buffer_of :: "state \<Rightarrow> addr \<Rightarrow> addr" where
  "buffer_of s p = (case deref_array s p of Inl f \<Rightarrow> 0 | Inr arr \<Rightarrow> array_data arr)"

text \<open>
  A live handle: a container lives at the address, its three mandatory fields are not
  null, every array it owns is live, and it owns them exclusively (no array and no
  buffer twice).
\<close>

definition live_edgelist :: "state \<Rightarrow> addr \<Rightarrow> bool" where
  "live_edgelist s h =
     (case deref_edgelist s h of
        Inl f \<Rightarrow> False
      | Inr e \<Rightarrow>
          src e \<noteq> 0 \<and> dst e \<noteq> 0 \<and> subgraph_offsets e \<noteq> 0 \<and>
          list_all (live_array s) (owned e) \<and>
          distinct (owned e) \<and> distinct (map (buffer_of s) (owned e)))"

text \<open>
  The descriptor a caller reads through a View pointer.
\<close>

definition read_view :: "state \<Rightarrow> addr \<Rightarrow> cugraph_type_erased_device_array_view_t option" where
  "read_view s p = (case heap_lookup (host s) p of Some (View v) \<Rightarrow> Some v | _ \<Rightarrow> None)"

text \<open>
  The elements a caller reads through a View pointer: the buffer at the address of the
  View, when it has the length the View states.
\<close>

definition view_values :: "state \<Rightarrow> addr \<Rightarrow> scalar list option" where
  "view_values s p =
     (case read_view s p of
        None \<Rightarrow> None
      | Some v \<Rightarrow>
          (case heap_lookup (device s) (view_data v) of
             None \<Rightarrow> None
           | Some xs \<Rightarrow> if length xs = view_size v then Some xs else None))"

text \<open>
  The View of an Array: its type, length and address.
\<close>

definition array_view :: "cugraph_type_erased_device_array_t \<Rightarrow> cugraph_type_erased_device_array_view_t" where
  "array_view arr = \<lparr>view_type = array_type arr, view_size = array_size arr, view_data = array_data arr\<rparr>"

text \<open>
  The elements an array holds (its buffer, when that has the length the array records).
\<close>

definition array_values :: "state \<Rightarrow> addr \<Rightarrow> scalar list option" where
  "array_values s p =
     (case deref_array s p of
        Inl f \<Rightarrow> None
      | Inr arr \<Rightarrow>
          (case heap_lookup (device s) (array_data arr) of
             None \<Rightarrow> None
           | Some xs \<Rightarrow> if length xs = array_size arr then Some xs else None))"

text \<open>
  The order of the offsets: integers compare, anything else does not.
\<close>

fun scalar_le :: "scalar \<Rightarrow> scalar \<Rightarrow> bool" where
  "scalar_le (Int_val a) (Int_val b) = (a \<le> b)"
| "scalar_le x y = False"

text \<open>
  Invariant 2 of the data model, on the elements of the offsets array: \<open>M + 1\<close> integer
  elements, non-decreasing, the first \<open>0\<close> and the last \<open>N\<close>.
\<close>

definition offsets_invariant :: "nat \<Rightarrow> nat \<Rightarrow> scalar list \<Rightarrow> bool" where
  "offsets_invariant N M xs =
     (length xs = M + 1 \<and> sorted_wrt scalar_le xs \<and>
      hd xs = Int_val 0 \<and> last xs = Int_val (int N))"

text \<open>
  A well-formed Result with \<open>N\<close> edges and \<open>M\<close> subgraphs: a live handle that
  satisfies the invariants of the data model.
\<close>

definition well_formed :: "state \<Rightarrow> addr \<Rightarrow> nat \<Rightarrow> nat \<Rightarrow> bool" where
  "well_formed s h N M =
     (live_edgelist s h \<and> 1 \<le> M \<and>
      (case deref_edgelist s h of
         Inl f \<Rightarrow> False
       | Inr e \<Rightarrow>
           list_all (\<lambda>p. map_option length (array_values s p) = Some N)
             (nonnull [src e, dst e, wgt e, edge_ids e, edge_type_ids e]) \<and>
           (case array_values s (subgraph_offsets e) of
              None \<Rightarrow> False
            | Some xs \<Rightarrow> offsets_invariant N M xs)))"

text \<open>
  What a getter call delivers: \<open>Some None\<close> for the absent-sentinel
  (\<^verbatim>\<open>NULL\<close>), \<open>Some (Some v)\<close> for a pointer to the View \<open>v\<close>, and \<open>None\<close>
  when the call has no defined result.
\<close>

definition returned_view ::
  "fault + (addr \<times> state) \<Rightarrow> cugraph_type_erased_device_array_view_t option option" where
  "returned_view r =
     (case r of
        Inl f \<Rightarrow> None
      | Inr (p, s') \<Rightarrow> if p = 0 then Some None else map_option Some (read_view s' p))"

text \<open>
  The Array object a field of the container points to (\<open>None\<close> for a null field).
\<close>

definition field_array ::
  "state \<Rightarrow> addr \<Rightarrow> field \<Rightarrow> cugraph_type_erased_device_array_t option" where
  "field_array s h f =
     (case deref_edgelist s h of
        Inl x \<Rightarrow> None
      | Inr e \<Rightarrow> (case deref_array s (field_ptr f e) of Inl x \<Rightarrow> None | Inr arr \<Rightarrow> Some arr))"

text \<open>
  A caller's sequence of getter calls on one handle, each in the store the previous call
  left.
\<close>

fun run_getters :: "field list \<Rightarrow> state \<Rightarrow> addr \<Rightarrow> fault + state" where
  "run_getters [] s h = Inr s"
| "run_getters (f # fs) s h =
     result_bind (getter f s h) (\<lambda>r. run_getters fs (snd r) h)"

text \<open>
  An invalid handle: null, or an address where no container lives (it never did, or it
  has been freed).
\<close>

definition invalid_handle :: "state \<Rightarrow> addr \<Rightarrow> bool" where
  "invalid_handle s h =
     (case heap_lookup (host s) h of Some (Edgelist e) \<Rightarrow> False | _ \<Rightarrow> True)"

subsection \<open>Vocabulary of the proofs\<close>

text \<open>
  The destructor as a loop over the field selectors, for the induction.
\<close>

fun free_loop :: "state \<Rightarrow> addr \<Rightarrow> (cugraph_edgelist_t \<Rightarrow> addr) list \<Rightarrow> fault + state" where
  "free_loop s h [] = delete_edgelist s h"
| "free_loop s h (g # gs) =
     result_bind (deref_edgelist s h) (\<lambda>ip.
     result_bind (delete_array s (g ip)) (\<lambda>s'. free_loop s' h gs))"

text \<open>
  Every object and buffer of the first store is in the second, unchanged.
\<close>

definition store_extends :: "state \<Rightarrow> state \<Rightarrow> bool" where
  "store_extends s s' =
     ((\<forall>q x. heap_lookup (host s) q = Some x \<longrightarrow> heap_lookup (host s') q = Some x) \<and>
      (\<forall>q x. heap_lookup (device s) q = Some x \<longrightarrow> heap_lookup (device s') q = Some x) \<and>
      device_capacity s' = device_capacity s)"

text \<open>
  The array at \<open>p\<close> was made between the two stores and holds the column.
\<close>

definition holds_column :: "state \<Rightarrow> state \<Rightarrow> column \<Rightarrow> addr \<Rightarrow> bool" where
  "holds_column s s' c p =
     (p \<noteq> 0 \<and> heap_lookup (host s) p = None \<and>
      (\<exists>d. d \<noteq> 0 \<and> heap_lookup (device s) d = None \<and>
           deref_array s' p =
             Inr \<lparr>array_type = col_type c, array_size = length (col_values c),
                   array_data = d\<rparr> \<and>
           heap_lookup (device s') d = Some (col_values c)))"

text \<open>
  A field of the producer and the pointer made for it: null for an absent field.
\<close>

definition placed :: "state \<Rightarrow> state \<Rightarrow> column option \<Rightarrow> addr \<Rightarrow> bool" where
  "placed s s' c p = (case c of None \<Rightarrow> p = 0 | Some col \<Rightarrow> holds_column s s' col p)"

text \<open>
  The number of elements the present fields take up in device memory.
\<close>

definition needed :: "column option list \<Rightarrow> nat" where
  "needed cs = sum_list (map (\<lambda>c. case c of None \<Rightarrow> 0 | Some col \<Rightarrow> length (col_values col)) cs)"

section \<open>Example stores\<close>

text \<open>
  Concrete stores and producer inputs on which the theorems below are instantiated.
  \<open>example_state\<close> holds the Result of the round-trip scenario of the spec at handle
  \<open>1\<close>; \<open>empty_result_state\<close> holds a Result with no edges whose weights are
  present (with length zero); \<open>presence_state\<close> holds a one-edge Result for each
  combination of present optional fields.
\<close>

definition example_state :: state where
  "example_state =
     \<lparr>host =
        [(1, Edgelist \<lparr>src = 2, dst = 3, wgt = 4, edge_ids = 0, edge_type_ids = 0,
                       subgraph_offsets = 5\<rparr>),
         (2, Array \<lparr>array_type = INT32, array_size = 3, array_data = 1\<rparr>),
         (3, Array \<lparr>array_type = INT32, array_size = 3, array_data = 2\<rparr>),
         (4, Array \<lparr>array_type = FLOAT32, array_size = 3, array_data = 3\<rparr>),
         (5, Array \<lparr>array_type = SIZE_T, array_size = 2, array_data = 4\<rparr>)],
      device =
        [(1, [Int_val 0, Int_val 1, Int_val 2]),
         (2, [Int_val 1, Int_val 2, Int_val 0]),
         (3, [Float_val 1.0, Float_val 2.0, Float_val 3.0]),
         (4, [Int_val 0, Int_val 3])],
      device_capacity = 64\<rparr>"

definition example_edgelist :: cugraph_edgelist_t where
  "example_edgelist = \<lparr>src = 2, dst = 3, wgt = 4, edge_ids = 0, edge_type_ids = 0,
                       subgraph_offsets = 5\<rparr>"

definition example_freed_state :: state where
  "example_freed_state = \<lparr>host = [], device = [], device_capacity = 64\<rparr>"

definition empty_result_state :: state where
  "empty_result_state =
     \<lparr>host =
        [(1, Edgelist \<lparr>src = 2, dst = 3, wgt = 4, edge_ids = 0, edge_type_ids = 0,
                       subgraph_offsets = 5\<rparr>),
         (2, Array \<lparr>array_type = INT64, array_size = 0, array_data = 1\<rparr>),
         (3, Array \<lparr>array_type = INT64, array_size = 0, array_data = 2\<rparr>),
         (4, Array \<lparr>array_type = FLOAT64, array_size = 0, array_data = 3\<rparr>),
         (5, Array \<lparr>array_type = SIZE_T, array_size = 2, array_data = 4\<rparr>)],
      device = [(1, []), (2, []), (3, []), (4, [Int_val 0, Int_val 0])],
      device_capacity = 64\<rparr>"

definition empty_result_edgelist :: cugraph_edgelist_t where
  "empty_result_edgelist = \<lparr>src = 2, dst = 3, wgt = 4, edge_ids = 0, edge_type_ids = 0,
                       subgraph_offsets = 5\<rparr>"

definition presence_state :: "bool \<Rightarrow> bool \<Rightarrow> bool \<Rightarrow> state" where
  "presence_state w i t =
     \<lparr>host =
        [(1, Edgelist \<lparr>src = 2, dst = 3, wgt = (if w then 4 else 0),
                       edge_ids = (if i then 5 else 0), edge_type_ids = (if t then 6 else 0),
                       subgraph_offsets = 7\<rparr>),
         (2, Array \<lparr>array_type = INT32, array_size = 1, array_data = 1\<rparr>),
         (3, Array \<lparr>array_type = INT32, array_size = 1, array_data = 2\<rparr>)] @
        (if w then [(4, Array \<lparr>array_type = FLOAT32, array_size = 1, array_data = 3\<rparr>)] else []) @
        (if i then [(5, Array \<lparr>array_type = INT32, array_size = 1, array_data = 4\<rparr>)] else []) @
        (if t then [(6, Array \<lparr>array_type = INT32, array_size = 1, array_data = 5\<rparr>)] else []) @
        [(7, Array \<lparr>array_type = SIZE_T, array_size = 2, array_data = 6\<rparr>)],
      device =
        [(1, [Int_val 0]), (2, [Int_val 1])] @
        (if w then [(3, [Float_val 0.5])] else []) @
        (if i then [(4, [Int_val 17])] else []) @
        (if t then [(5, [Int_val 2])] else []) @
        [(6, [Int_val 0, Int_val 1])],
      device_capacity = 16\<rparr>"

definition roomy_store :: state where
  "roomy_store = \<lparr>host = [], device = [], device_capacity = 64\<rparr>"

definition tight_store :: state where
  "tight_store = \<lparr>host = [], device = [], device_capacity = 4\<rparr>"

definition round_trip_extraction :: extraction where
  "round_trip_extraction =
     \<lparr>ex_sources = \<lparr>col_type = INT32, col_values = [Int_val 0, Int_val 1, Int_val 2]\<rparr>,
      ex_destinations = \<lparr>col_type = INT32, col_values = [Int_val 1, Int_val 2, Int_val 0]\<rparr>,
      ex_weights =
        Some \<lparr>col_type = FLOAT32, col_values = [Float_val 1.0, Float_val 2.0, Float_val 3.0]\<rparr>,
      ex_edge_ids = None,
      ex_edge_type_ids = None,
      ex_counts = [3]\<rparr>"

definition two_subgraph_extraction :: extraction where
  "two_subgraph_extraction =
     \<lparr>ex_sources =
        \<lparr>col_type = INT64,
          col_values = [Int_val 0, Int_val 1, Int_val 4, Int_val 5, Int_val 6]\<rparr>,
      ex_destinations =
        \<lparr>col_type = INT64,
          col_values = [Int_val 1, Int_val 0, Int_val 5, Int_val 6, Int_val 4]\<rparr>,
      ex_weights = None,
      ex_edge_ids = None,
      ex_edge_type_ids = None,
      ex_counts = [2, 3]\<rparr>"

section \<open>Properties of the store\<close>

lemma fold_max_ge: "a \<le> fold max ks (a::nat)"
  by (induction ks arbitrary: a) (auto intro: order_trans[OF max.cobounded2])

lemma fold_max_mem: "k \<in> set ks \<Longrightarrow> k \<le> fold max ks (a::nat)"
proof (induction ks arbitrary: a)
  case Nil then show ?case by simp
next
  case (Cons x xs)
  show ?case
  proof (cases "k = x")
    case True
    have "x \<le> max x a" by simp
    also have "\<dots> \<le> fold max xs (max x a)" by (rule fold_max_ge)
    finally show ?thesis using True by simp
  next
    case False
    with Cons show ?thesis by simp
  qed
qed

lemma heap_fresh_nonzero [simp]: "heap_fresh h \<noteq> 0"
  by (simp add: heap_fresh_def)

lemma heap_fresh_unused: "map_of h (heap_fresh h) = None"
proof -
  have "heap_fresh h \<notin> fst ` set h"
  proof
    assume "heap_fresh h \<in> fst ` set h"
    then have "heap_fresh h \<in> set (map fst h)" by simp
    then have "heap_fresh h \<le> fold max (map fst h) 0" by (rule fold_max_mem)
    then show False by (simp add: heap_fresh_def)
  qed
  then show ?thesis by (simp add: map_of_eq_None_iff)
qed

lemma heap_lookup_fresh [simp]: "heap_lookup h (heap_fresh h) = None"
  by (simp add: heap_lookup_def heap_fresh_unused)

lemma heap_lookup_null [simp]: "heap_lookup h 0 = None"
  by (simp add: heap_lookup_def)

lemma heap_lookup_Cons:
  "heap_lookup ((p, x) # h) q = (if q = p \<and> p \<noteq> 0 then Some x else heap_lookup h q)"
  by (simp add: heap_lookup_def)

lemma map_of_heap_delete: "map_of (heap_delete p h) q = (if q = p then None else map_of h q)"
  by (induction h) (auto simp: heap_delete_def)

lemma heap_lookup_delete:
  "heap_lookup (heap_delete p h) q = (if q = p then None else heap_lookup h q)"
  by (simp add: heap_lookup_def map_of_heap_delete)

lemma heap_delete_unused: "map_of h p = None \<Longrightarrow> heap_delete p h = h"
  by (induction h) (auto simp: heap_delete_def split: if_splits)

lemma heap_delete_fresh: "heap_delete (heap_fresh h) ((heap_fresh h, x) # h) = h"
  using heap_delete_unused[OF heap_fresh_unused, of h] by (simp add: heap_delete_def)

lemma result_bind_Inr [simp]: "result_bind (Inr x) f = f x"
  by (simp add: result_bind_def)

lemma result_bind_Inl [simp]: "result_bind (Inl e) f = Inl e"
  by (simp add: result_bind_def)

lemma fault_eq [simp]: "(f::fault) = Undefined_behaviour"
  by (cases f) simp

section \<open>The accessors, step by step\<close>

lemma view_live:
  "deref_array s a = Inr arr \<Longrightarrow>
   view s a = Inr (heap_fresh (host s), s\<lparr>host := (heap_fresh (host s), View (array_view arr)) # host s\<rparr>)"
  by (simp add: view_def heap_new_def array_view_def)

lemma getter_live:
  "deref_edgelist s h = Inr e \<Longrightarrow>
   getter f s h =
     (if optional f \<and> field_ptr f e = 0 then Inr (0, s) else view s (field_ptr f e))"
  by (cases f)
     (simp_all add: cugraph_edgelist_get_sources_def cugraph_edgelist_get_destinations_def
        cugraph_edgelist_get_edge_weights_def cugraph_edgelist_get_edge_ids_def
        cugraph_edgelist_get_edge_type_ids_def cugraph_edgelist_get_edge_offsets_def)

lemma delete_array_null [simp]: "delete_array s 0 = Inr s"
  by (simp add: delete_array_def)

lemma delete_array_live:
  assumes "p \<noteq> 0" and "live_array s p"
  shows "delete_array s p =
           Inr (s\<lparr>host := heap_delete p (host s),
                  device := heap_delete (buffer_of s p) (device s)\<rparr>)"
  using assms
  by (auto simp: delete_array_def live_array_def buffer_of_def split: sum.splits)

lemma delete_array_host:
  assumes "delete_array s p = Inr s'"
  shows "heap_lookup (host s') q =
           (if q = p then None else heap_lookup (host s) q)"
  using assms
  by (auto simp: delete_array_def result_bind_def heap_lookup_delete
           split: if_splits sum.splits option.splits)

lemma delete_array_is_array:
  assumes "delete_array s p = Inr s'" and "p \<noteq> 0"
  shows "\<exists>arr. heap_lookup (host s) p = Some (Array arr)"
  using assms
  by (auto simp: delete_array_def result_bind_def deref_array_def
           split: if_splits sum.splits option.splits object.splits)

lemma delete_array_deref_edgelist:
  assumes "delete_array s p = Inr s'"
  shows "deref_edgelist s' h = deref_edgelist s h"
proof (cases "h = p \<and> p \<noteq> 0")
  case True
  with delete_array_is_array[OF assms] obtain arr where
    "heap_lookup (host s) h = Some (Array arr)" by auto
  moreover have "heap_lookup (host s') h = None"
    using delete_array_host[OF assms, of h] True by simp
  ultimately show ?thesis by (simp add: deref_edgelist_def)
next
  case False
  then have "heap_lookup (host s') h = heap_lookup (host s) h"
    using delete_array_host[OF assms, of h] by (cases "h = 0") auto
  then show ?thesis by (simp add: deref_edgelist_def)
qed

lemma free_is_loop:
  "cugraph_edgelist_free s h =
     free_loop s h [src, dst, wgt, edge_ids, edge_type_ids, subgraph_offsets]"
  by (simp add: cugraph_edgelist_free_def)

lemma free_loop_as_list:
  "deref_edgelist s h = Inr e \<Longrightarrow>
   free_loop s h gs =
     result_bind (delete_arrays s (map (\<lambda>g. g e) gs)) (\<lambda>s'. delete_edgelist s' h)"
proof (induction gs arbitrary: s)
  case Nil
  then show ?case by simp
next
  case (Cons g gs)
  show ?case
  proof (cases "delete_array s (g e)")
    case (Inl x)
    with Cons.prems show ?thesis by simp
  next
    case (Inr s1)
    then have "deref_edgelist s1 h = Inr e"
      using Cons.prems by (simp add: delete_array_deref_edgelist)
    from Cons.IH[OF this] Inr Cons.prems show ?thesis by simp
  qed
qed

lemma free_as_list:
  assumes "deref_edgelist s h = Inr e"
  shows "cugraph_edgelist_free s h =
           result_bind
             (delete_arrays s [src e, dst e, wgt e, edge_ids e, edge_type_ids e, subgraph_offsets e])
             (\<lambda>s'. delete_edgelist s' h)"
  using free_loop_as_list[OF assms, of "[src, dst, wgt, edge_ids, edge_type_ids, subgraph_offsets]"]
  by (simp add: free_is_loop)

lemma delete_array_live_other:
  assumes "p \<noteq> 0" and "live_array s p" and "live_array s q" and "q \<noteq> p"
    and "buffer_of s q \<noteq> buffer_of s p"
  shows "live_array (s\<lparr>host := heap_delete p (host s),
                  device := heap_delete (buffer_of s p) (device s)\<rparr>) q
         \<and> buffer_of (s\<lparr>host := heap_delete p (host s),
                  device := heap_delete (buffer_of s p) (device s)\<rparr>) q = buffer_of s q"
  using assms
  by (auto simp: live_array_def buffer_of_def deref_array_def heap_lookup_delete
           split: sum.splits option.splits object.splits)

lemma delete_arrays_live:
  assumes "list_all (live_array s) (nonnull ps)"
    and "distinct (nonnull ps)"
    and "distinct (map (buffer_of s) (nonnull ps))"
  shows "\<exists>s'. delete_arrays s ps = Inr s' \<and>
           (\<forall>q. heap_lookup (host s') q =
                  (if q \<in> set (nonnull ps) then None else heap_lookup (host s) q)) \<and>
           (\<forall>d. heap_lookup (device s') d =
                  (if d \<in> set (map (buffer_of s) (nonnull ps)) then None
                   else heap_lookup (device s) d)) \<and>
           device_capacity s' = device_capacity s"
  using assms
proof (induction ps arbitrary: s)
  case Nil
  then show ?case by (simp add: nonnull_def)
next
  case (Cons p ps)
  show ?case
  proof (cases "p = 0")
    case True
    with Cons.prems have "list_all (live_array s) (nonnull ps)" "distinct (nonnull ps)"
      "distinct (map (buffer_of s) (nonnull ps))"
      by (simp_all add: nonnull_def)
    from Cons.IH[OF this] True show ?thesis by (simp add: nonnull_def)
  next
    case False
    define s1 where "s1 = s\<lparr>host := heap_delete p (host s),
                  device := heap_delete (buffer_of s p) (device s)\<rparr>"
    from False Cons.prems have lp: "live_array s p"
      and rest: "list_all (live_array s) (nonnull ps)"
      and pn: "p \<notin> set (nonnull ps)" and dn: "distinct (nonnull ps)"
      and bn: "buffer_of s p \<notin> set (map (buffer_of s) (nonnull ps))"
      and db: "distinct (map (buffer_of s) (nonnull ps))"
      by (simp_all add: nonnull_def)
    have del: "delete_array s p = Inr s1"
      unfolding s1_def by (rule delete_array_live[OF False lp])
    have other: "live_array s1 q \<and> buffer_of s1 q = buffer_of s q" if "q \<in> set (nonnull ps)" for q
    proof -
      from that rest have "live_array s q" by (simp add: list_all_iff)
      moreover from that pn have "q \<noteq> p" by auto
      moreover from that bn have "buffer_of s q \<noteq> buffer_of s p"
        by (metis image_eqI set_map)
      ultimately show ?thesis
        unfolding s1_def using delete_array_live_other[OF False lp] by blast
    qed
    have bufs: "map (buffer_of s1) (nonnull ps) = map (buffer_of s) (nonnull ps)"
      using other by (simp cong: map_cong)
    have "list_all (live_array s1) (nonnull ps)"
      using other by (simp add: list_all_iff)
    moreover note dn
    moreover have "distinct (map (buffer_of s1) (nonnull ps))"
      unfolding bufs by (rule db)
    ultimately obtain s' where
      run: "delete_arrays s1 ps = Inr s'"
      and hst: "\<forall>q. heap_lookup (host s') q =
                  (if q \<in> set (nonnull ps) then None else heap_lookup (host s1) q)"
      and dev: "\<forall>d. heap_lookup (device s') d =
                  (if d \<in> set (map (buffer_of s1) (nonnull ps)) then None
                   else heap_lookup (device s1) d)"
      and cap: "device_capacity s' = device_capacity s1"
      using Cons.IH[of s1] by blast
    have "delete_arrays s (p # ps) = Inr s'"
      using del run by simp
    moreover have "\<forall>q. heap_lookup (host s') q =
                  (if q \<in> set (nonnull (p # ps)) then None else heap_lookup (host s) q)"
      using hst False by (simp add: nonnull_def s1_def heap_lookup_delete)
    moreover have "\<forall>d. heap_lookup (device s') d =
                  (if d \<in> set (map (buffer_of s) (nonnull (p # ps))) then None
                   else heap_lookup (device s) d)"
      using dev False bufs by (simp add: nonnull_def s1_def heap_lookup_delete)
    moreover have "device_capacity s' = device_capacity s"
      using cap by (simp add: s1_def)
    ultimately show ?thesis by blast
  qed
qed

lemma owned_nonnull: "owned e = nonnull [src e, dst e, wgt e, edge_ids e, edge_type_ids e, subgraph_offsets e]"
  by (simp add: owned_def nonnull_def)

lemma live_edgelist_not_owned:
  assumes "live_edgelist s h" and "deref_edgelist s h = Inr e"
  shows "h \<noteq> 0 \<and> h \<notin> set (owned e)"
proof -
  have h0: "h \<noteq> 0"
  proof
    assume "h = 0"
    with assms(2) show False by (simp add: deref_edgelist_def)
  qed
  have "h \<notin> set (owned e)"
  proof
    assume "h \<in> set (owned e)"
    with assms have "live_array s h"
      by (simp add: live_edgelist_def list_all_iff)
    with assms(2) show False
      by (auto simp: live_array_def deref_array_def deref_edgelist_def
               split: option.splits object.splits)
  qed
  with h0 show ?thesis by simp
qed

lemmas example_simps =
  example_state_def example_edgelist_def live_edgelist_def deref_edgelist_def heap_lookup_def
  owned_def live_array_def deref_array_def buffer_of_def

lemma example_live: "live_edgelist example_state 1"
  by (simp add: example_simps)

lemma example_deref: "deref_edgelist example_state 1 = Inr example_edgelist"
  by (simp add: example_simps)

section \<open>The destructor on a live handle\<close>

lemma free_on_live:
  assumes "live_edgelist s h" and "deref_edgelist s h = Inr e"
  shows "\<exists>s1. cugraph_edgelist_free s h = Inr (s1\<lparr>host := heap_delete h (host s1)\<rparr>) \<and>
           (\<forall>q. heap_lookup (host s1) q =
                  (if q \<in> set (owned e) then None else heap_lookup (host s) q)) \<and>
           (\<forall>d. heap_lookup (device s1) d =
                  (if d \<in> set (map (buffer_of s) (owned e)) then None
                   else heap_lookup (device s) d))"
proof -
  let ?ps = "[src e, dst e, wgt e, edge_ids e, edge_type_ids e, subgraph_offsets e]"
  from assms have "list_all (live_array s) (nonnull ?ps)" "distinct (nonnull ?ps)"
    "distinct (map (buffer_of s) (nonnull ?ps))"
    by (simp_all add: live_edgelist_def owned_nonnull)
  from delete_arrays_live[OF this] obtain s1 where
    run: "delete_arrays s ?ps = Inr s1"
    and hst: "\<forall>q. heap_lookup (host s1) q =
                (if q \<in> set (owned e) then None else heap_lookup (host s) q)"
    and dev: "\<forall>d. heap_lookup (device s1) d =
                (if d \<in> set (map (buffer_of s) (owned e)) then None
                 else heap_lookup (device s) d)"
    unfolding owned_nonnull by blast
  from live_edgelist_not_owned[OF assms] have h0: "h \<noteq> 0" and hn: "h \<notin> set (owned e)"
    by simp_all
  have "heap_lookup (host s1) h = heap_lookup (host s) h"
    using hst hn by simp
  then have d1: "deref_edgelist s1 h = Inr e"
    using assms(2) by (simp add: deref_edgelist_def)
  have "cugraph_edgelist_free s h = Inr (s1\<lparr>host := heap_delete h (host s1)\<rparr>)"
    using run d1 h0 by (simp add: free_as_list[OF assms(2)] delete_edgelist_def)
  with hst dev show ?thesis by blast
qed

text \<open>
  C1: for every live handle, \<open>cugraph_edgelist_free\<close> returns (it has one exit), and in
  the store it leaves the container, every array the container owns (sources,
  destinations, weights, edge ids, edge type ids, subgraph offsets, as far as present)
  and the device buffer of each of them are released; every other object and buffer is
  as before. There is no outcome in which only a part is released.
\<close>

theorem cugraph_edgelist_free_releases_all:
  assumes "live_edgelist s h" and "deref_edgelist s h = Inr e"
  shows "\<exists>s'. cugraph_edgelist_free s h = Inr s' \<and>
           (\<forall>q. heap_lookup (host s') q =
                  (if q = h \<or> q \<in> set (owned e) then None else heap_lookup (host s) q)) \<and>
           (\<forall>d. heap_lookup (device s') d =
                  (if d \<in> set (map (buffer_of s) (owned e)) then None
                   else heap_lookup (device s) d))"
proof -
  from free_on_live[OF assms] obtain s1 where
    f: "cugraph_edgelist_free s h = Inr (s1\<lparr>host := heap_delete h (host s1)\<rparr>)"
    and hst: "\<forall>q. heap_lookup (host s1) q =
                (if q \<in> set (owned e) then None else heap_lookup (host s) q)"
    and dev: "\<forall>d. heap_lookup (device s1) d =
                (if d \<in> set (map (buffer_of s) (owned e)) then None
                 else heap_lookup (device s) d)"
    by blast
  define s' where "s' = s1\<lparr>host := heap_delete h (host s1)\<rparr>"
  have "\<forall>q. heap_lookup (host s') q =
          (if q = h \<or> q \<in> set (owned e) then None else heap_lookup (host s) q)"
    using hst by (simp add: s'_def heap_lookup_delete)
  moreover have "\<forall>d. heap_lookup (device s') d =
          (if d \<in> set (map (buffer_of s) (owned e)) then None
           else heap_lookup (device s) d)"
    using dev by (simp add: s'_def)
  moreover have "cugraph_edgelist_free s h = Inr s'"
    using f by (simp add: s'_def)
  ultimately show ?thesis by blast
qed

theorem cugraph_edgelist_free_releases_all_witness:
  "live_edgelist example_state 1 \<and>
   deref_edgelist example_state 1 = Inr example_edgelist \<and>
   owned example_edgelist = [2, 3, 4, 5] \<and>
   map (buffer_of example_state) (owned example_edgelist) = [1, 2, 3, 4] \<and>
   (\<exists>s'. cugraph_edgelist_free example_state 1 = Inr s' \<and>
      map (heap_lookup (host s')) [1, 2, 3, 4, 5] = [None, None, None, None, None] \<and>
      map (heap_lookup (device s')) [1, 2, 3, 4] = [None, None, None, None])"
proof -
  have o: "owned example_edgelist = [2, 3, 4, 5]"
    by (simp add: example_simps)
  have b: "map (buffer_of example_state) [2, 3, 4, 5] = [1, 2, 3, 4]"
    by (simp add: example_simps)
  from cugraph_edgelist_free_releases_all[OF example_live example_deref]
  obtain s' where "cugraph_edgelist_free example_state 1 = Inr s'"
    and "\<forall>q. heap_lookup (host s') q =
           (if q = 1 \<or> q \<in> set (owned example_edgelist) then None
            else heap_lookup (host example_state) q)"
    and "\<forall>d. heap_lookup (device s') d =
           (if d \<in> set (map (buffer_of example_state) (owned example_edgelist)) then None
            else heap_lookup (device example_state) d)"
    by blast
  then have "cugraph_edgelist_free example_state 1 = Inr s' \<and>
      map (heap_lookup (host s')) [1, 2, 3, 4, 5] = [None, None, None, None, None] \<and>
      map (heap_lookup (device s')) [1, 2, 3, 4] = [None, None, None, None]"
    unfolding o b by simp
  with example_live example_deref o b show ?thesis by simp
qed

section \<open>The getters on a live handle\<close>

lemma heap_fresh_pos [simp]: "0 < heap_fresh h"
  by (simp add: heap_fresh_def)

lemma deref_array_nonnull: "deref_array s p = Inr arr \<Longrightarrow> p \<noteq> 0"
  by (cases "p = 0") (simp_all add: deref_array_def)

lemma getter_present:
  assumes "deref_edgelist s h = Inr e" and "deref_array s (field_ptr f e) = Inr arr"
  shows "getter f s h =
           Inr (heap_fresh (host s),
                s\<lparr>host := (heap_fresh (host s), View (array_view arr)) # host s\<rparr>)"
  using assms deref_array_nonnull[OF assms(2)]
  by (simp add: getter_live view_live)

lemma getter_absent:
  assumes "deref_edgelist s h = Inr e" and "optional f" and "field_ptr f e = 0"
  shows "getter f s h = Inr (0, s)"
  using assms by (simp add: getter_live)

lemma field_ptr_owned: "field_ptr f e \<noteq> 0 \<Longrightarrow> field_ptr f e \<in> set (owned e)"
  by (cases f) (simp_all add: owned_def)

lemma live_field:
  assumes "live_edgelist s h" and "deref_edgelist s h = Inr e" and "field_ptr f e \<noteq> 0"
  shows "\<exists>arr. deref_array s (field_ptr f e) = Inr arr \<and>
               heap_lookup (device s) (array_data arr) \<noteq> None"
proof -
  from assms have "live_array s (field_ptr f e)"
    using field_ptr_owned[OF assms(3)] by (simp add: live_edgelist_def list_all_iff)
  then show ?thesis
    by (auto simp: live_array_def split: sum.splits)
qed

lemma live_mandatory:
  assumes "live_edgelist s h" and "deref_edgelist s h = Inr e" and "\<not> optional f"
  shows "field_ptr f e \<noteq> 0"
  using assms by (cases f) (simp_all add: live_edgelist_def)

lemma live_edgelist_deref: "live_edgelist s h \<Longrightarrow> \<exists>e. deref_edgelist s h = Inr e"
  by (auto simp: live_edgelist_def split: sum.splits)

lemma mint_lookup:
  assumes "host s' = (p, View v) # host s" and "heap_lookup (host s) p = None"
  shows "heap_lookup (host s) q = Some x \<Longrightarrow> heap_lookup (host s') q = Some x"
  using assms by (auto simp: heap_lookup_Cons)

lemma mint_deref:
  assumes "host s' = (p, View v) # host s" and "heap_lookup (host s) p = None"
  shows "deref_edgelist s' q = deref_edgelist s q" and "deref_array s' q = deref_array s q"
  using assms by (auto simp: deref_edgelist_def deref_array_def heap_lookup_Cons)

lemma mint_live:
  assumes "host s' = (p, View v) # host s" and "heap_lookup (host s) p = None"
    and "device s' = device s"
  shows "live_edgelist s' h = live_edgelist s h"
proof -
  have "live_array s' = live_array s" "buffer_of s' = buffer_of s"
    using mint_deref(2)[OF assms(1,2)] assms(3)
    by (simp_all add: live_array_def buffer_of_def fun_eq_iff cong: sum.case_cong)
  then show ?thesis
    using mint_deref(1)[OF assms(1,2)] by (simp add: live_edgelist_def cong: sum.case_cong)
qed

lemma getter_on_live:
  assumes "live_edgelist s h" and "deref_edgelist s h = Inr e"
  shows "(optional f \<and> field_ptr f e = 0 \<and> getter f s h = Inr (0, s)) \<or>
         (\<exists>arr p s'. field_ptr f e \<noteq> 0 \<and> deref_array s (field_ptr f e) = Inr arr \<and>
            getter f s h = Inr (p, s') \<and> p \<noteq> 0 \<and> heap_lookup (host s) p = None \<and>
            host s' = (p, View (array_view arr)) # host s \<and> device s' = device s \<and>
            device_capacity s' = device_capacity s)"
proof (cases "field_ptr f e = 0")
  case True
  with live_mandatory[OF assms] have "optional f" by blast
  with True getter_absent[OF assms(2)] show ?thesis by simp
next
  case False
  from live_field[OF assms False] obtain arr where
    arr: "deref_array s (field_ptr f e) = Inr arr" by blast
  from getter_present[OF assms(2) arr] False arr show ?thesis
    by simp
qed

lemma array_values_SomeD:
  assumes "array_values s p = Some xs"
  shows "\<exists>arr. deref_array s p = Inr arr \<and> heap_lookup (device s) (array_data arr) = Some xs \<and>
               array_size arr = length xs"
  using assms
  by (auto simp: array_values_def split: sum.splits option.splits if_splits)

lemma getter_roundtrip:
  assumes "deref_edgelist s h = Inr e" and "array_values s (field_ptr f e) = Some xs"
  shows "\<exists>p s' v. getter f s h = Inr (p, s') \<and> p \<noteq> 0 \<and> read_view s' p = Some v \<and>
           view_size v = length xs \<and> view_values s' p = Some xs"
proof -
  from array_values_SomeD[OF assms(2)] obtain arr where
    arr: "deref_array s (field_ptr f e) = Inr arr"
    and buf: "heap_lookup (device s) (array_data arr) = Some xs"
    and len: "array_size arr = length xs" by blast
  define p where "p = heap_fresh (host s)"
  define s' where "s' = s\<lparr>host := (p, View (array_view arr)) # host s\<rparr>"
  have g: "getter f s h = Inr (p, s')"
    unfolding p_def s'_def by (rule getter_present[OF assms(1) arr])
  have p0: "p \<noteq> 0" by (simp add: p_def)
  have rv: "read_view s' p = Some (array_view arr)"
    using p0 by (simp add: s'_def read_view_def heap_lookup_Cons)
  have "view_values s' p = Some xs"
    using rv buf len by (simp add: view_values_def array_view_def s'_def)
  with g p0 rv len show ?thesis by (simp add: array_view_def)
qed

lemma returned_view_present:
  assumes "deref_edgelist s h = Inr e" and "deref_array s (field_ptr f e) = Inr arr"
  shows "returned_view (getter f s h) = Some (Some (array_view arr))"
  by (simp add: getter_present[OF assms] returned_view_def read_view_def heap_lookup_Cons)

lemma returned_view_absent:
  assumes "deref_edgelist s h = Inr e" and "optional f" and "field_ptr f e = 0"
  shows "returned_view (getter f s h) = Some None"
  by (simp add: getter_absent[OF assms] returned_view_def)

lemma returned_view_live:
  assumes "live_edgelist s h"
  shows "returned_view (getter f s h) = Some (map_option array_view (field_array s h f))"
proof -
  from live_edgelist_deref[OF assms] obtain e where e: "deref_edgelist s h = Inr e" by blast
  show ?thesis
  proof (cases "field_ptr f e = 0")
    case True
    with live_mandatory[OF assms e] have "optional f" by blast
    moreover have "field_array s h f = None"
      using e True by (simp add: field_array_def deref_array_def)
    ultimately show ?thesis using returned_view_absent[OF e _ True] by simp
  next
    case False
    from live_field[OF assms e False] obtain arr where
      arr: "deref_array s (field_ptr f e) = Inr arr" by blast
    then have "field_array s h f = Some arr"
      using e by (simp add: field_array_def)
    with returned_view_present[OF e arr] show ?thesis by simp
  qed
qed

lemma getter_keeps:
  assumes "live_edgelist s h"
  shows "\<exists>p s'. getter f s h = Inr (p, s') \<and> live_edgelist s' h \<and>
           device s' = device s \<and> device_capacity s' = device_capacity s \<and>
           (\<forall>q x. heap_lookup (host s) q = Some x \<longrightarrow> heap_lookup (host s') q = Some x) \<and>
           (\<forall>q. deref_edgelist s' q = deref_edgelist s q) \<and>
           (\<forall>q. deref_array s' q = deref_array s q)"
proof -
  from live_edgelist_deref[OF assms] obtain e where e: "deref_edgelist s h = Inr e" by blast
  from getter_on_live[OF assms e, of f] show ?thesis
  proof
    assume "optional f \<and> field_ptr f e = 0 \<and> getter f s h = Inr (0, s)"
    with assms show ?thesis by simp
  next
    assume "\<exists>arr p s'. field_ptr f e \<noteq> 0 \<and> deref_array s (field_ptr f e) = Inr arr \<and>
            getter f s h = Inr (p, s') \<and> p \<noteq> 0 \<and> heap_lookup (host s) p = None \<and>
            host s' = (p, View (array_view arr)) # host s \<and> device s' = device s \<and>
            device_capacity s' = device_capacity s"
    then obtain arr p s' where g: "getter f s h = Inr (p, s')"
      and fr: "heap_lookup (host s) p = None"
      and hs: "host s' = (p, View (array_view arr)) # host s"
      and dv: "device s' = device s" and cp: "device_capacity s' = device_capacity s"
      by blast
    have "live_edgelist s' h" using mint_live[OF hs fr dv] assms by simp
    moreover have "\<forall>q x. heap_lookup (host s) q = Some x \<longrightarrow> heap_lookup (host s') q = Some x"
      using mint_lookup[OF hs fr] by blast
    moreover have "\<forall>q. deref_edgelist s' q = deref_edgelist s q"
      using mint_deref(1)[OF hs fr] by blast
    moreover have "\<forall>q. deref_array s' q = deref_array s q"
      using mint_deref(2)[OF hs fr] by blast
    ultimately show ?thesis using g dv cp by blast
  qed
qed

lemmas getter_defs =
  cugraph_edgelist_get_sources_def cugraph_edgelist_get_destinations_def
  cugraph_edgelist_get_edge_weights_def cugraph_edgelist_get_edge_ids_def
  cugraph_edgelist_get_edge_type_ids_def cugraph_edgelist_get_edge_offsets_def

lemma well_formed_values:
  assumes "well_formed s h N M"
  shows "\<exists>e xs ys zs. deref_edgelist s h = Inr e \<and> live_edgelist s h \<and>
           array_values s (src e) = Some xs \<and> length xs = N \<and>
           array_values s (dst e) = Some ys \<and> length ys = N \<and>
           array_values s (subgraph_offsets e) = Some zs \<and> offsets_invariant N M zs"
proof -
  from assms have l: "live_edgelist s h" by (simp add: well_formed_def)
  from live_edgelist_deref[OF l] obtain e where e: "deref_edgelist s h = Inr e" by blast
  from l e have nz: "src e \<noteq> 0" "dst e \<noteq> 0" by (simp_all add: live_edgelist_def)
  from assms e nz have "map_option length (array_values s (src e)) = Some N"
    "map_option length (array_values s (dst e)) = Some N"
    by (simp_all add: well_formed_def nonnull_def)
  moreover from assms e obtain zs where
    "array_values s (subgraph_offsets e) = Some zs" "offsets_invariant N M zs"
    by (auto simp: well_formed_def split: option.splits)
  ultimately show ?thesis using e l by auto
qed

text \<open>
  C2: for a well-formed Result with \<open>N\<close> edges and \<open>M\<close> subgraphs,
  \<open>cugraph_edgelist_get_sources\<close> and \<open>cugraph_edgelist_get_destinations\<close> return a
  non-null pointer to a View of length \<open>N\<close>, and \<open>cugraph_edgelist_get_edge_offsets\<close>
  returns a non-null pointer to a View of length \<open>M + 1\<close>.
\<close>

theorem mandatory_getters_present:
  assumes "well_formed s h N M"
  shows "(\<exists>p s'. cugraph_edgelist_get_sources s h = Inr (p, s') \<and> p \<noteq> 0 \<and>
            map_option view_size (read_view s' p) = Some N) \<and>
         (\<exists>p s'. cugraph_edgelist_get_destinations s h = Inr (p, s') \<and> p \<noteq> 0 \<and>
            map_option view_size (read_view s' p) = Some N) \<and>
         (\<exists>p s'. cugraph_edgelist_get_edge_offsets s h = Inr (p, s') \<and> p \<noteq> 0 \<and>
            map_option view_size (read_view s' p) = Some (M + 1))"
proof -
  from well_formed_values[OF assms] obtain e xs ys zs where
    e: "deref_edgelist s h = Inr e"
    and xs: "array_values s (src e) = Some xs" "length xs = N"
    and ys: "array_values s (dst e) = Some ys" "length ys = N"
    and zs: "array_values s (subgraph_offsets e) = Some zs" "offsets_invariant N M zs"
    by blast
  from zs(2) have lz: "length zs = M + 1" by (simp add: offsets_invariant_def)
  from getter_roundtrip[OF e, of Sources xs] xs
  have "\<exists>p s'. cugraph_edgelist_get_sources s h = Inr (p, s') \<and> p \<noteq> 0 \<and>
            map_option view_size (read_view s' p) = Some N" by auto
  moreover from getter_roundtrip[OF e, of Destinations ys] ys
  have "\<exists>p s'. cugraph_edgelist_get_destinations s h = Inr (p, s') \<and> p \<noteq> 0 \<and>
            map_option view_size (read_view s' p) = Some N" by auto
  moreover from getter_roundtrip[OF e, of Edge_offsets zs] zs(1) lz
  have "\<exists>p s'. cugraph_edgelist_get_edge_offsets s h = Inr (p, s') \<and> p \<noteq> 0 \<and>
            map_option view_size (read_view s' p) = Some (M + 1)" by auto
  ultimately show ?thesis by blast
qed

lemmas eval_simps =
  example_state_def live_edgelist_def deref_edgelist_def heap_lookup_def
  owned_def live_array_def deref_array_def buffer_of_def well_formed_def nonnull_def
  array_values_def offsets_invariant_def getter_defs view_def heap_new_def heap_fresh_def
  read_view_def view_values_def returned_view_def field_array_def

theorem mandatory_getters_present_witness:
  "well_formed example_state 1 3 1 \<and>
   (\<exists>p s'. cugraph_edgelist_get_sources example_state 1 = Inr (p, s') \<and> p \<noteq> 0 \<and>
            map_option view_size (read_view s' p) = Some 3) \<and>
   (\<exists>p s'. cugraph_edgelist_get_destinations example_state 1 = Inr (p, s') \<and> p \<noteq> 0 \<and>
            map_option view_size (read_view s' p) = Some 3) \<and>
   (\<exists>p s'. cugraph_edgelist_get_edge_offsets example_state 1 = Inr (p, s') \<and> p \<noteq> 0 \<and>
            map_option view_size (read_view s' p) = Some (1 + 1))"
proof -
  have w: "well_formed example_state 1 3 1"
    by (simp add: eval_simps)
  from mandatory_getters_present[OF w] w show ?thesis by blast
qed

text \<open>
  C3: on a live handle, the getter of an optional field (weights, edge ids, edge type
  ids) returns the absent-sentinel if and only if the field of the container is null;
  when the field is present the getter returns a pointer to the View of its array,
  whatever the length of the array, zero included.
\<close>

theorem optional_getters_sentinel:
  assumes "live_edgelist s h" and "deref_edgelist s h = Inr e"
  shows "((returned_view (cugraph_edgelist_get_edge_weights s h) = Some None) = (wgt e = 0)) \<and>
         ((returned_view (cugraph_edgelist_get_edge_ids s h) = Some None) = (edge_ids e = 0)) \<and>
         ((returned_view (cugraph_edgelist_get_edge_type_ids s h) = Some None) =
            (edge_type_ids e = 0)) \<and>
         (wgt e \<noteq> 0 \<longrightarrow> (\<exists>arr. deref_array s (wgt e) = Inr arr \<and>
            returned_view (cugraph_edgelist_get_edge_weights s h) = Some (Some (array_view arr)))) \<and>
         (edge_ids e \<noteq> 0 \<longrightarrow> (\<exists>arr. deref_array s (edge_ids e) = Inr arr \<and>
            returned_view (cugraph_edgelist_get_edge_ids s h) = Some (Some (array_view arr)))) \<and>
         (edge_type_ids e \<noteq> 0 \<longrightarrow> (\<exists>arr. deref_array s (edge_type_ids e) = Inr arr \<and>
            returned_view (cugraph_edgelist_get_edge_type_ids s h) =
              Some (Some (array_view arr))))"
proof -
  have one: "((returned_view (getter f s h) = Some None) = (field_ptr f e = 0)) \<and>
      (field_ptr f e \<noteq> 0 \<longrightarrow> (\<exists>arr. deref_array s (field_ptr f e) = Inr arr \<and>
         returned_view (getter f s h) = Some (Some (array_view arr))))"
    if "optional f" for f
  proof (cases "field_ptr f e = 0")
    case True
    with returned_view_absent[OF assms(2) that] show ?thesis by simp
  next
    case False
    from live_field[OF assms False] obtain arr where
      arr: "deref_array s (field_ptr f e) = Inr arr" by blast
    with returned_view_present[OF assms(2) arr] False show ?thesis by simp
  qed
  from one[of Edge_weights] one[of Edge_ids] one[of Edge_type_ids] show ?thesis
    by simp
qed

theorem optional_getters_sentinel_witness:
  "live_edgelist empty_result_state 1 \<and>
   deref_edgelist empty_result_state 1 = Inr empty_result_edgelist \<and>
   wgt empty_result_edgelist = 4 \<and>
   edge_ids empty_result_edgelist = 0 \<and> edge_type_ids empty_result_edgelist = 0 \<and>
   returned_view (cugraph_edgelist_get_edge_weights empty_result_state 1) =
     Some (Some \<lparr>view_type = FLOAT64, view_size = 0, view_data = 3\<rparr>) \<and>
   returned_view (cugraph_edgelist_get_edge_ids empty_result_state 1) = Some None \<and>
   returned_view (cugraph_edgelist_get_edge_type_ids empty_result_state 1) = Some None"
proof -
  have l: "live_edgelist empty_result_state 1"
    by (simp add: empty_result_state_def live_edgelist_def deref_edgelist_def heap_lookup_def
          owned_def live_array_def deref_array_def buffer_of_def)
  have d: "deref_edgelist empty_result_state 1 = Inr empty_result_edgelist"
    by (simp add: empty_result_state_def empty_result_edgelist_def deref_edgelist_def
          heap_lookup_def)
  have a: "deref_array empty_result_state 4 =
             Inr \<lparr>array_type = FLOAT64, array_size = 0, array_data = 3\<rparr>"
    by (simp add: empty_result_state_def deref_array_def heap_lookup_def)
  have f: "wgt empty_result_edgelist = 4" "edge_ids empty_result_edgelist = 0"
    "edge_type_ids empty_result_edgelist = 0"
    by (simp_all add: empty_result_edgelist_def)
  from optional_getters_sentinel[OF l d] l d a f show ?thesis
    by (simp add: array_view_def)
qed

text \<open>
  C6: when the container holds sources \<open>[0, 1, 2]\<close>, destinations \<open>[1, 2, 0]\<close>,
  weights \<open>[1.0, 2.0, 3.0]\<close>, offsets \<open>[0, 3]\<close> and neither edge ids nor edge type
  ids, the Views returned by \<open>cugraph_edgelist_get_sources\<close>,
  \<open>cugraph_edgelist_get_destinations\<close> and \<open>cugraph_edgelist_get_edge_weights\<close> read
  \<open>[0, 1, 2]\<close>, \<open>[1, 2, 0]\<close> and \<open>[1.0, 2.0, 3.0]\<close>, and
  \<open>cugraph_edgelist_get_edge_ids\<close> and \<open>cugraph_edgelist_get_edge_type_ids\<close> return
  the absent-sentinel.
\<close>

theorem round_trip_scenario:
  assumes "deref_edgelist s h = Inr e"
    and "array_values s (src e) = Some [Int_val 0, Int_val 1, Int_val 2]"
    and "array_values s (dst e) = Some [Int_val 1, Int_val 2, Int_val 0]"
    and "array_values s (wgt e) = Some [Float_val 1.0, Float_val 2.0, Float_val 3.0]"
    and "array_values s (subgraph_offsets e) = Some [Int_val 0, Int_val 3]"
    and "edge_ids e = 0" and "edge_type_ids e = 0"
  shows "(\<exists>p s'. cugraph_edgelist_get_sources s h = Inr (p, s') \<and>
            view_values s' p = Some [Int_val 0, Int_val 1, Int_val 2]) \<and>
         (\<exists>p s'. cugraph_edgelist_get_destinations s h = Inr (p, s') \<and>
            view_values s' p = Some [Int_val 1, Int_val 2, Int_val 0]) \<and>
         (\<exists>p s'. cugraph_edgelist_get_edge_weights s h = Inr (p, s') \<and>
            view_values s' p = Some [Float_val 1.0, Float_val 2.0, Float_val 3.0]) \<and>
         cugraph_edgelist_get_edge_ids s h = Inr (0, s) \<and>
         cugraph_edgelist_get_edge_type_ids s h = Inr (0, s)"
proof -
  have rt: "\<exists>p s'. getter f s h = Inr (p, s') \<and> view_values s' p = Some xs"
    if "array_values s (field_ptr f e) = Some xs" for f xs
    using getter_roundtrip[OF assms(1) that] by blast
  from rt[of Sources] assms(2)
  have "\<exists>p s'. cugraph_edgelist_get_sources s h = Inr (p, s') \<and>
            view_values s' p = Some [Int_val 0, Int_val 1, Int_val 2]" by simp
  moreover from rt[of Destinations] assms(3)
  have "\<exists>p s'. cugraph_edgelist_get_destinations s h = Inr (p, s') \<and>
            view_values s' p = Some [Int_val 1, Int_val 2, Int_val 0]" by simp
  moreover from rt[of Edge_weights] assms(4)
  have "\<exists>p s'. cugraph_edgelist_get_edge_weights s h = Inr (p, s') \<and>
            view_values s' p = Some [Float_val 1.0, Float_val 2.0, Float_val 3.0]" by simp
  moreover from getter_absent[OF assms(1), of Edge_ids] assms(6)
  have "cugraph_edgelist_get_edge_ids s h = Inr (0, s)" by simp
  moreover from getter_absent[OF assms(1), of Edge_type_ids] assms(7)
  have "cugraph_edgelist_get_edge_type_ids s h = Inr (0, s)" by simp
  ultimately show ?thesis by blast
qed

theorem round_trip_scenario_witness:
  "deref_edgelist example_state 1 = Inr example_edgelist \<and>
   array_values example_state (src example_edgelist) = Some [Int_val 0, Int_val 1, Int_val 2] \<and>
   array_values example_state (dst example_edgelist) = Some [Int_val 1, Int_val 2, Int_val 0] \<and>
   array_values example_state (wgt example_edgelist) =
     Some [Float_val 1.0, Float_val 2.0, Float_val 3.0] \<and>
   array_values example_state (subgraph_offsets example_edgelist) = Some [Int_val 0, Int_val 3] \<and>
   edge_ids example_edgelist = 0 \<and> edge_type_ids example_edgelist = 0 \<and>
   (\<exists>p s'. cugraph_edgelist_get_sources example_state 1 = Inr (p, s') \<and>
            view_values s' p = Some [Int_val 0, Int_val 1, Int_val 2]) \<and>
   (\<exists>p s'. cugraph_edgelist_get_destinations example_state 1 = Inr (p, s') \<and>
            view_values s' p = Some [Int_val 1, Int_val 2, Int_val 0]) \<and>
   (\<exists>p s'. cugraph_edgelist_get_edge_weights example_state 1 = Inr (p, s') \<and>
            view_values s' p = Some [Float_val 1.0, Float_val 2.0, Float_val 3.0]) \<and>
   cugraph_edgelist_get_edge_ids example_state 1 = Inr (0, example_state) \<and>
   cugraph_edgelist_get_edge_type_ids example_state 1 = Inr (0, example_state)"
proof -
  have a: "array_values example_state (src example_edgelist) =
             Some [Int_val 0, Int_val 1, Int_val 2]"
    "array_values example_state (dst example_edgelist) = Some [Int_val 1, Int_val 2, Int_val 0]"
    "array_values example_state (wgt example_edgelist) =
       Some [Float_val 1.0, Float_val 2.0, Float_val 3.0]"
    "array_values example_state (subgraph_offsets example_edgelist) =
       Some [Int_val 0, Int_val 3]"
    "edge_ids example_edgelist = 0" "edge_type_ids example_edgelist = 0"
    by (simp_all add: example_state_def example_edgelist_def array_values_def deref_array_def
          heap_lookup_def)
  from round_trip_scenario[OF example_deref a] example_deref a show ?thesis by blast
qed

text \<open>
  C8: on a live handle, any sequence of getter calls (any getters, in any order, any
  number of times) returns, and leaves the container, every array and every device
  buffer as they were: the handle is still live, the container and the arrays read the
  same at every address, the device memory is the same, and no object of the store is
  changed or removed. (The Views the calls mint are the only new objects.)
\<close>

theorem getters_are_pure_reads:
  assumes "live_edgelist s h"
  shows "\<exists>s'. run_getters fs s h = Inr s' \<and> live_edgelist s' h \<and>
           device s' = device s \<and> device_capacity s' = device_capacity s \<and>
           (\<forall>q x. heap_lookup (host s) q = Some x \<longrightarrow> heap_lookup (host s') q = Some x) \<and>
           (\<forall>q. deref_edgelist s' q = deref_edgelist s q) \<and>
           (\<forall>q. deref_array s' q = deref_array s q)"
  using assms
proof (induction fs arbitrary: s)
  case Nil
  then show ?case by simp
next
  case (Cons f fs)
  from getter_keeps[OF Cons.prems, of f] obtain p s1 where
    g: "getter f s h = Inr (p, s1)" and l1: "live_edgelist s1 h"
    and k1: "device s1 = device s" "device_capacity s1 = device_capacity s"
      "\<forall>q x. heap_lookup (host s) q = Some x \<longrightarrow> heap_lookup (host s1) q = Some x"
      "\<forall>q. deref_edgelist s1 q = deref_edgelist s q"
      "\<forall>q. deref_array s1 q = deref_array s q"
    by blast
  from Cons.IH[OF l1] obtain s' where
    r: "run_getters fs s1 h = Inr s'" and l2: "live_edgelist s' h"
    and k2: "device s' = device s1" "device_capacity s' = device_capacity s1"
      "\<forall>q x. heap_lookup (host s1) q = Some x \<longrightarrow> heap_lookup (host s') q = Some x"
      "\<forall>q. deref_edgelist s' q = deref_edgelist s1 q"
      "\<forall>q. deref_array s' q = deref_array s1 q"
    by blast
  have "run_getters (f # fs) s h = Inr s'" using g r by simp
  with l2 k1 k2 show ?case by simp
qed

theorem getters_are_pure_reads_witness:
  "live_edgelist example_state 1 \<and>
   (\<exists>s'. run_getters [Edge_offsets, Sources, Edge_ids, Sources, Edge_weights, Destinations,
                        Edge_type_ids] example_state 1 = Inr s' \<and>
      device s' = device example_state \<and>
      deref_edgelist s' 1 = Inr example_edgelist \<and>
      map (deref_array s') [2, 3, 4, 5] = map (deref_array example_state) [2, 3, 4, 5])"
proof -
  from getters_are_pure_reads[OF example_live,
      of "[Edge_offsets, Sources, Edge_ids, Sources, Edge_weights, Destinations, Edge_type_ids]"]
    example_live example_deref
  show ?thesis by auto
qed

text \<open>
  C10: on live handles, what a getter returns is a function of the array its field points
  to: two calls whose fields hold the same array (or are both null) return Views with the
  same element type, length and device address (or both the absent-sentinel); in
  particular a second call of the same getter on the same handle returns what the first
  call returned.
\<close>

theorem getters_deterministic:
  assumes "live_edgelist s h" and "live_edgelist t k"
    and "field_array t k f = field_array s h f"
  shows "returned_view (getter f t k) = returned_view (getter f s h) \<and>
         returned_view (getter f s h) = Some (map_option array_view (field_array s h f)) \<and>
         (\<exists>p1 s1. getter f s h = Inr (p1, s1) \<and>
            returned_view (getter f s1 h) = returned_view (getter f s h))"
proof -
  have a: "returned_view (getter f s h) = Some (map_option array_view (field_array s h f))"
    by (rule returned_view_live[OF assms(1)])
  have b: "returned_view (getter f t k) = returned_view (getter f s h)"
    using returned_view_live[OF assms(2), of f] a assms(3) by simp
  from getter_keeps[OF assms(1), of f] obtain p1 s1 where
    g: "getter f s h = Inr (p1, s1)" and l: "live_edgelist s1 h"
    and de: "\<forall>q. deref_edgelist s1 q = deref_edgelist s q"
    and da: "\<forall>q. deref_array s1 q = deref_array s q"
    by blast
  have "field_array s1 h f = field_array s h f"
    using de da by (simp add: field_array_def cong: sum.case_cong)
  then have "returned_view (getter f s1 h) = returned_view (getter f s h)"
    using returned_view_live[OF l, of f] a by simp
  with a b g show ?thesis by blast
qed

theorem getters_deterministic_witness:
  "live_edgelist example_state 1 \<and> live_edgelist empty_result_state 1 \<and>
   field_array empty_result_state 1 Edge_offsets = field_array example_state 1 Edge_offsets \<and>
   returned_view (getter Edge_offsets empty_result_state 1) =
     Some (Some \<lparr>view_type = SIZE_T, view_size = 2, view_data = 4\<rparr>) \<and>
   returned_view (getter Edge_offsets example_state 1) =
     Some (Some \<lparr>view_type = SIZE_T, view_size = 2, view_data = 4\<rparr>) \<and>
   (\<exists>p1 s1. getter Edge_offsets example_state 1 = Inr (p1, s1) \<and>
      returned_view (getter Edge_offsets s1 1) =
        Some (Some \<lparr>view_type = SIZE_T, view_size = 2, view_data = 4\<rparr>))"
proof -
  have l: "live_edgelist empty_result_state 1"
    by (simp add: empty_result_state_def live_edgelist_def deref_edgelist_def heap_lookup_def
          owned_def live_array_def deref_array_def buffer_of_def)
  have fa: "field_array example_state 1 Edge_offsets =
     Some \<lparr>array_type = SIZE_T, array_size = 2, array_data = 4\<rparr>"
    by (simp add: field_array_def example_state_def deref_edgelist_def deref_array_def
          heap_lookup_def)
  have fb: "field_array empty_result_state 1 Edge_offsets =
     Some \<lparr>array_type = SIZE_T, array_size = 2, array_data = 4\<rparr>"
    by (simp add: field_array_def empty_result_state_def deref_edgelist_def deref_array_def
          heap_lookup_def)
  have eq: "field_array empty_result_state 1 Edge_offsets =
            field_array example_state 1 Edge_offsets"
    by (simp only: fa fb)
  from getters_deterministic[OF example_live l eq] fa eq example_live l
  show ?thesis by (auto simp: array_view_def)
qed

section \<open>Invalid handles and absent fields\<close>

lemma invalid_handle_deref: "invalid_handle s h = (deref_edgelist s h = Inl Undefined_behaviour)"
  by (auto simp: invalid_handle_def deref_edgelist_def split: option.splits object.splits)

lemma free_loop_invalid:
  "free_loop s h gs = Inr s' \<Longrightarrow> invalid_handle s' h"
proof (induction gs arbitrary: s)
  case Nil
  then show ?case
    by (auto simp: delete_edgelist_def invalid_handle_def heap_lookup_delete result_bind_def
             split: if_splits sum.splits)
next
  case (Cons g gs)
  then show ?case
    by (auto simp: result_bind_def split: sum.splits)
qed

text \<open>
  C4, as amended: the accessor API does not detect an invalid handle. The null pointer
  is an invalid handle in every store, and a handle is invalid once
  \<open>cugraph_edgelist_free\<close> has returned for it; on an invalid handle each of the six
  getters and \<open>cugraph_edgelist_free\<close> (a second free included) dereferences the
  handle unchecked, which is undefined behaviour: no failure is reported.
\<close>

theorem invalid_handle_is_undefined:
  "invalid_handle s 0 \<and>
   (cugraph_edgelist_free s h = Inr s' \<longrightarrow> invalid_handle s' h) \<and>
   (invalid_handle s h \<longrightarrow>
      cugraph_edgelist_get_sources s h = Inl Undefined_behaviour \<and>
      cugraph_edgelist_get_destinations s h = Inl Undefined_behaviour \<and>
      cugraph_edgelist_get_edge_weights s h = Inl Undefined_behaviour \<and>
      cugraph_edgelist_get_edge_ids s h = Inl Undefined_behaviour \<and>
      cugraph_edgelist_get_edge_type_ids s h = Inl Undefined_behaviour \<and>
      cugraph_edgelist_get_edge_offsets s h = Inl Undefined_behaviour \<and>
      cugraph_edgelist_free s h = Inl Undefined_behaviour)"
proof -
  have "invalid_handle s 0" by (simp add: invalid_handle_def)
  moreover have "cugraph_edgelist_free s h = Inr s' \<longrightarrow> invalid_handle s' h"
    unfolding free_is_loop by (blast intro: free_loop_invalid)
  moreover have "invalid_handle s h \<longrightarrow>
      cugraph_edgelist_get_sources s h = Inl Undefined_behaviour \<and>
      cugraph_edgelist_get_destinations s h = Inl Undefined_behaviour \<and>
      cugraph_edgelist_get_edge_weights s h = Inl Undefined_behaviour \<and>
      cugraph_edgelist_get_edge_ids s h = Inl Undefined_behaviour \<and>
      cugraph_edgelist_get_edge_type_ids s h = Inl Undefined_behaviour \<and>
      cugraph_edgelist_get_edge_offsets s h = Inl Undefined_behaviour \<and>
      cugraph_edgelist_free s h = Inl Undefined_behaviour"
    by (simp add: invalid_handle_deref getter_defs cugraph_edgelist_free_def)
  ultimately show ?thesis by blast
qed

lemma example_free: "cugraph_edgelist_free example_state 1 = Inr example_freed_state"
  by (simp add: cugraph_edgelist_free_def example_state_def example_freed_state_def
        deref_edgelist_def delete_array_def deref_array_def delete_edgelist_def heap_lookup_def
        heap_delete_def)

theorem invalid_handle_is_undefined_witness:
  "invalid_handle example_state 0 \<and>
   cugraph_edgelist_free example_state 1 = Inr example_freed_state \<and>
   invalid_handle example_freed_state 1 \<and>
   cugraph_edgelist_get_sources example_freed_state 1 = Inl Undefined_behaviour \<and>
   cugraph_edgelist_get_destinations example_freed_state 1 = Inl Undefined_behaviour \<and>
   cugraph_edgelist_get_edge_weights example_freed_state 1 = Inl Undefined_behaviour \<and>
   cugraph_edgelist_get_edge_ids example_freed_state 1 = Inl Undefined_behaviour \<and>
   cugraph_edgelist_get_edge_type_ids example_freed_state 1 = Inl Undefined_behaviour \<and>
   cugraph_edgelist_get_edge_offsets example_freed_state 1 = Inl Undefined_behaviour \<and>
   cugraph_edgelist_free example_freed_state 1 = Inl Undefined_behaviour"
proof -
  have a: "invalid_handle example_state 0"
    using invalid_handle_is_undefined[of example_state 1 example_freed_state] by blast
  have b: "invalid_handle example_freed_state 1"
    using invalid_handle_is_undefined[of example_state 1 example_freed_state] example_free
    by blast
  from invalid_handle_is_undefined[of example_freed_state 1 example_freed_state] b a example_free
  show ?thesis by blast
qed

text \<open>
  C4, as stated, fails: on the null handle \<open>cugraph_edgelist_get_sources\<close> and
  \<open>cugraph_edgelist_free\<close> have undefined behaviour, and so has the second
  \<open>cugraph_edgelist_free\<close> of the handle \<open>1\<close>; nothing is detected or reported.
\<close>

theorem invalid_handle_not_detected:
  "invalid_handle example_state 0 \<and>
   cugraph_edgelist_get_sources example_state 0 = Inl Undefined_behaviour \<and>
   cugraph_edgelist_free example_state 0 = Inl Undefined_behaviour \<and>
   cugraph_edgelist_free example_state 1 = Inr example_freed_state \<and>
   cugraph_edgelist_free example_freed_state 1 = Inl Undefined_behaviour"
  by (simp add: invalid_handle_def cugraph_edgelist_get_sources_def cugraph_edgelist_free_def
        example_state_def example_freed_state_def
        deref_edgelist_def delete_array_def deref_array_def delete_edgelist_def heap_lookup_def
        heap_delete_def)

lemma delete_arrays_nonnull: "delete_arrays s ps = delete_arrays s (nonnull ps)"
proof (induction ps arbitrary: s)
  case Nil
  then show ?case by (simp add: nonnull_def)
next
  case (Cons p ps)
  show ?case
  proof (cases "p = 0")
    case True
    with Cons.IH[of s] show ?thesis by (simp add: nonnull_def)
  next
    case False
    have "result_bind (delete_array s p) (\<lambda>s'. delete_arrays s' ps) =
          result_bind (delete_array s p) (\<lambda>s'. delete_arrays s' (nonnull ps))"
      by (cases "delete_array s p") (simp_all add: Cons.IH)
    with False show ?thesis by (simp add: nonnull_def)
  qed
qed

lemma owned_present_optional:
  assumes "live_edgelist s h" and "deref_edgelist s h = Inr e"
  shows "owned e = [src e, dst e] @ present_optional e @ [subgraph_offsets e]"
proof -
  from assms have "src e \<noteq> 0" "dst e \<noteq> 0" "subgraph_offsets e \<noteq> 0"
    by (simp_all add: live_edgelist_def)
  then show ?thesis by (simp add: owned_def present_optional_def nonnull_def)
qed

text \<open>
  C9: on a live handle, whichever of the three optional fields are absent,
  \<open>cugraph_edgelist_free\<close> returns and does what deleting the present arrays alone
  (sources, destinations, the present optional arrays, offsets, in this order) and then
  the container does: the \<^verbatim>\<open>delete\<close> of an absent field drops out. In the store
  it leaves, the container, the three mandatory arrays, every present optional array and
  the device buffer of each of these arrays are released, and every other object and
  buffer is as before. The instance below runs through all eight combinations.
\<close>

theorem free_total_with_absent_fields:
  assumes "live_edgelist s h" and "deref_edgelist s h = Inr e"
  shows "cugraph_edgelist_free s h =
           result_bind
             (delete_arrays s ([src e, dst e] @ present_optional e @ [subgraph_offsets e]))
             (\<lambda>s1. delete_edgelist s1 h) \<and>
         (\<exists>s'. cugraph_edgelist_free s h = Inr s' \<and>
            (\<forall>q. heap_lookup (host s') q =
               (if q \<in> set (h # src e # dst e # subgraph_offsets e # present_optional e)
                then None else heap_lookup (host s) q)) \<and>
            (\<forall>d. heap_lookup (device s') d =
               (if d \<in> set (map (buffer_of s)
                              (src e # dst e # subgraph_offsets e # present_optional e))
                then None else heap_lookup (device s) d)) \<and>
            device_capacity s' = device_capacity s)"
proof -
  let ?all = "[src e, dst e, wgt e, edge_ids e, edge_type_ids e, subgraph_offsets e]"
  let ?present = "[src e, dst e] @ present_optional e @ [subgraph_offsets e]"
  have ow: "owned e = ?present" by (rule owned_present_optional[OF assms])
  have nn: "nonnull ?all = ?present" using ow by (simp add: owned_nonnull)
  have same: "delete_arrays s ?all = delete_arrays s ?present"
  proof -
    have "delete_arrays s ?all = delete_arrays s (nonnull ?all)"
      by (rule delete_arrays_nonnull)
    then show ?thesis by (simp only: nn)
  qed
  have steps: "cugraph_edgelist_free s h =
      result_bind (delete_arrays s ?present) (\<lambda>s1. delete_edgelist s1 h)"
    by (simp only: free_as_list[OF assms(2)] same)
  from assms have "list_all (live_array s) (nonnull ?all)" "distinct (nonnull ?all)"
    "distinct (map (buffer_of s) (nonnull ?all))"
    by (simp_all add: live_edgelist_def owned_nonnull)
  from delete_arrays_live[OF this] obtain s1 where
    run: "delete_arrays s ?all = Inr s1"
    and hst: "\<forall>q. heap_lookup (host s1) q =
                (if q \<in> set ?present then None else heap_lookup (host s) q)"
    and dev: "\<forall>d. heap_lookup (device s1) d =
                (if d \<in> set (map (buffer_of s) ?present) then None
                 else heap_lookup (device s) d)"
    and cap: "device_capacity s1 = device_capacity s"
    unfolding nn by blast
  from live_edgelist_not_owned[OF assms] have h0: "h \<noteq> 0" and hn: "h \<notin> set ?present"
    unfolding ow by simp_all
  have "heap_lookup (host s1) h = heap_lookup (host s) h"
    using hst hn by simp
  then have d1: "deref_edgelist s1 h = Inr e"
    using assms(2) by (simp add: deref_edgelist_def)
  define s' where "s' = s1\<lparr>host := heap_delete h (host s1)\<rparr>"
  have f: "cugraph_edgelist_free s h = Inr s'"
    using run d1 h0 by (simp add: free_as_list[OF assms(2)] delete_edgelist_def s'_def)
  have "\<forall>q. heap_lookup (host s') q =
          (if q \<in> set (h # src e # dst e # subgraph_offsets e # present_optional e)
           then None else heap_lookup (host s) q)"
    using hst by (auto simp: s'_def heap_lookup_delete)
  moreover have "\<forall>d. heap_lookup (device s') d =
          (if d \<in> set (map (buffer_of s)
                         (src e # dst e # subgraph_offsets e # present_optional e))
           then None else heap_lookup (device s) d)"
    using dev by (auto simp: s'_def)
  moreover have "device_capacity s' = device_capacity s"
    using cap by (simp add: s'_def)
  ultimately show ?thesis using steps f by blast
qed

theorem free_total_with_absent_fields_witness:
  "\<forall>w i t. live_edgelist (presence_state w i t) 1 \<and>
     (\<exists>s'. cugraph_edgelist_free (presence_state w i t) 1 = Inr s' \<and>
        (\<forall>q. heap_lookup (host s') q = None) \<and>
        (\<forall>d. heap_lookup (device s') d = None) \<and>
        device_capacity s' = 16)"
proof (intro allI)
  fix w i t
  define e where "e = \<lparr>src = 2, dst = 3, wgt = (if w then 4 else 0),
                       edge_ids = (if i then 5 else 0), edge_type_ids = (if t then 6 else 0),
                       subgraph_offsets = 7::nat\<rparr>"
  have l: "live_edgelist (presence_state w i t) 1"
    by (cases w; cases i; cases t)
       (simp_all add: presence_state_def live_edgelist_def deref_edgelist_def heap_lookup_def
          owned_def live_array_def deref_array_def buffer_of_def)
  have d: "deref_edgelist (presence_state w i t) 1 = Inr e"
    by (simp add: presence_state_def deref_edgelist_def heap_lookup_def e_def)
  from free_total_with_absent_fields[OF l d] obtain s' where
    f: "cugraph_edgelist_free (presence_state w i t) 1 = Inr s'"
    and hst: "\<forall>q. heap_lookup (host s') q =
               (if q \<in> set (1 # src e # dst e # subgraph_offsets e # present_optional e)
                then None else heap_lookup (host (presence_state w i t)) q)"
    and dev: "\<forall>d. heap_lookup (device s') d =
               (if d \<in> set (map (buffer_of (presence_state w i t))
                              (src e # dst e # subgraph_offsets e # present_optional e))
                then None else heap_lookup (device (presence_state w i t)) d)"
    and cap: "device_capacity s' = device_capacity (presence_state w i t)"
    by blast
  have "\<forall>q. heap_lookup (host s') q = None"
    unfolding hst[rule_format]
    by (cases w; cases i; cases t)
       (simp_all add: e_def present_optional_def nonnull_def presence_state_def heap_lookup_def)
  moreover have "\<forall>d. heap_lookup (device s') d = None"
    unfolding dev[rule_format]
    by (cases w; cases i; cases t)
       (simp_all add: e_def present_optional_def nonnull_def presence_state_def heap_lookup_def
          buffer_of_def deref_array_def)
  moreover have "device_capacity s' = 16"
    using cap by (simp add: presence_state_def)
  ultimately show "live_edgelist (presence_state w i t) 1 \<and>
     (\<exists>s'. cugraph_edgelist_free (presence_state w i t) 1 = Inr s' \<and>
        (\<forall>q. heap_lookup (host s') q = None) \<and>
        (\<forall>d. heap_lookup (device s') d = None) \<and>
        device_capacity s' = 16)"
    using l f by blast
qed

section \<open>Properties of the producer\<close>

lemma new_array_SomeD:
  assumes "new_array s c = Some (p, s1)"
  shows "p = heap_fresh (host s) \<and>
         device_used (device s) + length (col_values c) \<le> device_capacity s \<and>
         s1 = s\<lparr>device := (heap_fresh (device s), col_values c) # device s,
                host := (heap_fresh (host s),
                         Array \<lparr>array_type = col_type c, array_size = length (col_values c),
                                 array_data = heap_fresh (device s)\<rparr>) # host s\<rparr>"
  using assms
  by (auto simp: new_array_def device_alloc_def heap_new_def split: if_splits)

lemma new_array_undo:
  assumes "new_array s c = Some (p, s1)"
  shows "delete_array s1 p = Inr s"
proof -
  from new_array_SomeD[OF assms] have p: "p = heap_fresh (host s)"
    and s1: "s1 = s\<lparr>device := (heap_fresh (device s), col_values c) # device s,
                host := (heap_fresh (host s),
                         Array \<lparr>array_type = col_type c, array_size = length (col_values c),
                                 array_data = heap_fresh (device s)\<rparr>) # host s\<rparr>"
    by simp_all
  have hd: "heap_delete (heap_fresh (host s)) (host s1) = host s"
    unfolding s1 by (simp add: heap_delete_fresh)
  have dd: "heap_delete (heap_fresh (device s)) (device s1) = device s"
    unfolding s1 by (simp add: heap_delete_fresh)
  have da: "deref_array s1 p = Inr \<lparr>array_type = col_type c, array_size = length (col_values c),
                                 array_data = heap_fresh (device s)\<rparr>"
    unfolding s1 p by (simp add: deref_array_def heap_lookup_Cons)
  have dl: "heap_lookup (device s1) (heap_fresh (device s)) = Some (col_values c)"
    unfolding s1 by (simp add: heap_lookup_Cons)
  have "delete_array s1 p =
          Inr (s1\<lparr>host := heap_delete p (host s1),
                  device := heap_delete (heap_fresh (device s)) (device s1)\<rparr>)"
    using da dl by (simp add: delete_array_def p)
  also have "s1\<lparr>host := heap_delete p (host s1),
                  device := heap_delete (heap_fresh (device s)) (device s1)\<rparr> = s"
    unfolding p hd dd unfolding s1 by simp
  finally show ?thesis .
qed

lemma delete_arrays_append:
  "delete_arrays s (ps @ qs) = result_bind (delete_arrays s ps) (\<lambda>s'. delete_arrays s' qs)"
proof (induction ps arbitrary: s)
  case Nil
  then show ?case by simp
next
  case (Cons p ps)
  then show ?case by (cases "delete_array s p") simp_all
qed

lemma new_arrays_undo:
  "new_arrays s cs = (False, ps, s') \<Longrightarrow> delete_arrays s' (rev ps) = Inr s"
proof (induction s cs arbitrary: ps s' rule: new_arrays.induct)
  case (1 s)
  then show ?case by simp
next
  case (2 s cs)
  then obtain qs where q: "new_arrays s cs = (False, qs, s')" and ps: "ps = 0 # qs"
    by (auto split: prod.splits)
  from "2.IH"[OF q] show ?case
    by (simp add: ps delete_arrays_append)
next
  case (3 s c cs)
  show ?case
  proof (cases "new_array s c")
    case None
    with "3.prems" show ?thesis by simp
  next
    case (Some r)
    obtain p s1 where r: "r = (p, s1)" by (cases r)
    with Some "3.prems" obtain qs where
      q: "new_arrays s1 cs = (False, qs, s')" and ps: "ps = p # qs"
      by (auto split: prod.splits)
    from "3.IH"[OF Some[unfolded r] refl q] have "delete_arrays s' (rev qs) = Inr s1" .
    moreover have "delete_array s1 p = Inr s"
      using new_array_undo Some r by simp
    ultimately show ?thesis
      by (simp add: ps delete_arrays_append)
  qed
qed

lemma produce_failure_restores:
  assumes "produce_edgelist s ex = Inr (Inl err, s')"
  shows "s' = s"
proof (cases "populatable ex")
  case False
  with assms show ?thesis by (simp add: produce_edgelist_def)
next
  case True
  obtain ok ps s1 where n: "new_arrays s (produced_columns ex) = (ok, ps, s1)"
    by (cases "new_arrays s (produced_columns ex)") auto
  show ?thesis
  proof (cases ok)
    case False
    with n have "new_arrays s (produced_columns ex) = (False, ps, s1)" by simp
    then have "delete_arrays s1 (rev ps) = Inr s"
      by (rule new_arrays_undo)
    with assms True show ?thesis
      by (simp add: produce_edgelist_def n False)
  next
    case ok: True
    with assms True show ?thesis
      by (auto simp: produce_edgelist_def n heap_new_def split: list.splits)
  qed
qed

lemma store_extends_refl: "store_extends s s"
  by (simp add: store_extends_def)

lemma store_extends_trans:
  "store_extends s s1 \<Longrightarrow> store_extends s1 s2 \<Longrightarrow> store_extends s s2"
  by (simp add: store_extends_def)

lemma store_extends_deref_array:
  assumes "store_extends s s'" and "deref_array s p = Inr arr"
  shows "deref_array s' p = Inr arr"
proof -
  from assms(2) have "heap_lookup (host s) p = Some (Array arr)"
    by (cases "heap_lookup (host s) p") (auto simp: deref_array_def split: object.splits)
  with assms(1) have "heap_lookup (host s') p = Some (Array arr)"
    by (simp add: store_extends_def)
  then show ?thesis by (simp add: deref_array_def)
qed

lemma store_extends_host_None:
  "store_extends s s' \<Longrightarrow> heap_lookup (host s') p = None \<Longrightarrow> heap_lookup (host s) p = None"
  by (cases "heap_lookup (host s) p") (auto simp: store_extends_def)

lemma store_extends_device_None:
  "store_extends s s' \<Longrightarrow> heap_lookup (device s') p = None \<Longrightarrow> heap_lookup (device s) p = None"
  by (cases "heap_lookup (device s) p") (auto simp: store_extends_def)

lemma holds_column_later:
  assumes "holds_column s s1 c p" and "store_extends s1 s2"
  shows "holds_column s s2 c p"
proof -
  from assms(1) obtain d where p: "p \<noteq> 0" "heap_lookup (host s) p = None"
    and d: "d \<noteq> 0" "heap_lookup (device s) d = None"
    and a: "deref_array s1 p =
             Inr \<lparr>array_type = col_type c, array_size = length (col_values c),
                   array_data = d\<rparr>"
    and b: "heap_lookup (device s1) d = Some (col_values c)"
    by (auto simp: holds_column_def)
  from store_extends_deref_array[OF assms(2) a]
  have "deref_array s2 p = Inr \<lparr>array_type = col_type c, array_size = length (col_values c),
                   array_data = d\<rparr>" .
  moreover from assms(2) b have "heap_lookup (device s2) d = Some (col_values c)"
    by (simp add: store_extends_def)
  ultimately show ?thesis using p d by (auto simp: holds_column_def)
qed

lemma holds_column_earlier:
  assumes "holds_column s1 s2 c p" and "store_extends s s1"
  shows "holds_column s s2 c p"
  using assms store_extends_host_None[OF assms(2)] store_extends_device_None[OF assms(2)]
  by (auto simp: holds_column_def)

lemma new_array_ok:
  assumes "new_array s c = Some (p, s1)"
  shows "store_extends s s1 \<and> holds_column s s1 c p"
proof -
  from new_array_SomeD[OF assms] have p: "p = heap_fresh (host s)"
    and s1: "s1 = s\<lparr>device := (heap_fresh (device s), col_values c) # device s,
                host := (heap_fresh (host s),
                         Array \<lparr>array_type = col_type c, array_size = length (col_values c),
                                 array_data = heap_fresh (device s)\<rparr>) # host s\<rparr>"
    by simp_all
  have "store_extends s s1"
    unfolding s1 by (simp add: store_extends_def heap_lookup_Cons)
  moreover have "holds_column s s1 c p"
    unfolding holds_column_def
  proof (intro conjI exI[of _ "heap_fresh (device s)"])
    show "p \<noteq> 0" by (simp add: p)
    show "heap_lookup (host s) p = None" by (simp add: p)
    show "heap_fresh (device s) \<noteq> 0" by simp
    show "heap_lookup (device s) (heap_fresh (device s)) = None" by simp
    show "deref_array s1 p =
            Inr \<lparr>array_type = col_type c, array_size = length (col_values c),
                  array_data = heap_fresh (device s)\<rparr>"
      unfolding s1 p by (simp add: deref_array_def heap_lookup_Cons)
    show "heap_lookup (device s1) (heap_fresh (device s)) = Some (col_values c)"
      unfolding s1 by (simp add: heap_lookup_Cons)
  qed
  ultimately show ?thesis by simp
qed

lemma deref_array_lookup:
  "deref_array s p = Inr arr \<Longrightarrow> heap_lookup (host s) p = Some (Array arr)"
  by (cases "heap_lookup (host s) p")
     (auto simp: deref_array_def split: object.splits)

lemma holds_column_buffer:
  assumes "holds_column s s' c p"
  shows "heap_lookup (device s) (buffer_of s' p) = None \<and>
         heap_lookup (device s') (buffer_of s' p) = Some (col_values c) \<and>
         heap_lookup (host s') p \<noteq> None \<and>
         array_values s' p = Some (col_values c) \<and> live_array s' p"
proof -
  from assms obtain d where d: "heap_lookup (device s) d = None"
    and a: "deref_array s' p =
             Inr \<lparr>array_type = col_type c, array_size = length (col_values c),
                   array_data = d\<rparr>"
    and b: "heap_lookup (device s') d = Some (col_values c)"
    unfolding holds_column_def by blast
  have bo: "buffer_of s' p = d" by (simp add: buffer_of_def a)
  have "heap_lookup (host s') p \<noteq> None"
    using deref_array_lookup[OF a] by simp
  moreover have "array_values s' p = Some (col_values c)"
    by (simp add: array_values_def a b)
  moreover have "live_array s' p"
    by (simp add: live_array_def a b)
  ultimately show ?thesis using d b bo by simp
qed

lemma placed_nonnull:
  assumes "list_all2 (placed s s') cs ps" and "p \<in> set (nonnull ps)"
  shows "\<exists>col. holds_column s s' col p"
proof -
  from assms(2) have "p \<in> set ps" "p \<noteq> 0" by (simp_all add: nonnull_def)
  then obtain i where i: "i < length ps" "ps ! i = p" by (auto simp: in_set_conv_nth)
  with assms(1) have "placed s s' (cs ! i) p"
    by (auto simp: list_all2_conv_all_nth)
  with \<open>p \<noteq> 0\<close> show ?thesis
    by (cases "cs ! i") (auto simp: placed_def)
qed

lemma placed_later:
  assumes "list_all2 (placed s s1) cs ps" and "store_extends s1 s2"
  shows "list_all2 (placed s s2) cs ps"
  using assms(1)
  by (rule list_all2_mono) (auto simp: placed_def holds_column_later[OF _ assms(2)] split: option.splits)

lemma placed_earlier:
  assumes "list_all2 (placed s1 s2) cs ps" and "store_extends s s1"
  shows "list_all2 (placed s s2) cs ps"
  using assms(1)
  by (rule list_all2_mono) (auto simp: placed_def holds_column_earlier[OF _ assms(2)] split: option.splits)

lemma new_arrays_ok:
  "new_arrays s cs = (True, ps, s') \<Longrightarrow>
   store_extends s s' \<and> list_all2 (placed s s') cs ps \<and>
   distinct (nonnull ps) \<and> distinct (map (buffer_of s') (nonnull ps))"
proof (induction s cs arbitrary: ps s' rule: new_arrays.induct)
  case (1 s)
  then show ?case by (simp add: store_extends_refl nonnull_def)
next
  case (2 s cs)
  then obtain qs where q: "new_arrays s cs = (True, qs, s')" and ps: "ps = 0 # qs"
    by (auto split: prod.splits)
  from "2.IH"[OF q] show ?case
    by (simp add: ps nonnull_def placed_def)
next
  case (3 s c cs)
  show ?case
  proof (cases "new_array s c")
    case None
    with "3.prems" show ?thesis by simp
  next
    case (Some r)
    obtain p s1 where r: "r = (p, s1)" by (cases r)
    with Some "3.prems" obtain qs where
      q: "new_arrays s1 cs = (True, qs, s')" and ps: "ps = p # qs"
      by (auto split: prod.splits)
    from Some r have na: "new_array s c = Some (p, s1)" by simp
    from new_array_ok[OF na] have e1: "store_extends s s1" and h1: "holds_column s s1 c p"
      by simp_all
    from "3.IH"[OF na refl q] have e2: "store_extends s1 s'"
      and pl: "list_all2 (placed s1 s') cs qs"
      and dq: "distinct (nonnull qs)" and db: "distinct (map (buffer_of s') (nonnull qs))"
      by simp_all
    have hp: "holds_column s s' c p" by (rule holds_column_later[OF h1 e2])
    from holds_column_buffer[OF h1] have live1: "heap_lookup (host s1) p \<noteq> None"
      and buf1: "heap_lookup (device s1) (buffer_of s1 p) \<noteq> None" by simp_all
    have same_buf: "buffer_of s' p = buffer_of s1 p"
      using h1 store_extends_deref_array[OF e2]
      by (auto simp: holds_column_def buffer_of_def)
    have other: "q \<noteq> p \<and> buffer_of s' q \<noteq> buffer_of s' p" if "q \<in> set (nonnull qs)" for q
    proof -
      from placed_nonnull[OF pl that] obtain col where hq: "holds_column s1 s' col q" by blast
      then have "heap_lookup (host s1) q = None" by (simp add: holds_column_def)
      with live1 have "q \<noteq> p" by auto
      moreover from holds_column_buffer[OF hq]
      have "heap_lookup (device s1) (buffer_of s' q) = None" by simp
      with buf1 same_buf have "buffer_of s' q \<noteq> buffer_of s' p" by auto
      ultimately show ?thesis by simp
    qed
    have p0: "p \<noteq> 0" using h1 by (simp add: holds_column_def)
    have "store_extends s s'" by (rule store_extends_trans[OF e1 e2])
    moreover have "list_all2 (placed s s') (Some c # cs) ps"
      using hp placed_earlier[OF pl e1] by (simp add: ps placed_def)
    moreover have "distinct (nonnull ps)"
      using dq other p0 by (auto simp: ps nonnull_def)
    moreover have "distinct (map (buffer_of s') (nonnull ps))"
    proof -
      have "buffer_of s' p \<notin> buffer_of s' ` set (nonnull qs)"
      proof
        assume "buffer_of s' p \<in> buffer_of s' ` set (nonnull qs)"
        then obtain q where "q \<in> set (nonnull qs)" "buffer_of s' p = buffer_of s' q"
          by blast
        with other[of q] show False by simp
      qed
      moreover have "nonnull ps = p # nonnull qs"
        using p0 by (simp add: ps nonnull_def)
      ultimately show ?thesis using db by simp
    qed
    ultimately show ?thesis by simp
  qed
qed

lemma offsets_from_length: "length (offsets_from a cs) = length cs + 1"
  by (induction cs arbitrary: a) simp_all

lemma offsets_from_hd: "hd (offsets_from a cs) = a"
  by (cases cs) simp_all

lemma offsets_from_nonempty: "offsets_from a cs \<noteq> []"
  by (cases cs) simp_all

lemma offsets_from_last: "last (offsets_from a cs) = a + sum_list cs"
  by (induction cs arbitrary: a) (simp_all add: offsets_from_nonempty)

lemma offsets_from_lower: "x \<in> set (offsets_from a cs) \<Longrightarrow> a \<le> x"
proof (induction cs arbitrary: a)
  case Nil
  then show ?case by simp
next
  case (Cons c cs)
  from Cons.prems have "x = a \<or> x \<in> set (offsets_from (a + c) cs)" by simp
  then show ?case
  proof
    assume "x = a" then show ?thesis by simp
  next
    assume "x \<in> set (offsets_from (a + c) cs)"
    from Cons.IH[OF this] show ?thesis by simp
  qed
qed

lemma offsets_from_sorted: "sorted (offsets_from a cs)"
proof (induction cs arbitrary: a)
  case Nil
  then show ?case by simp
next
  case (Cons c cs)
  have "\<forall>x \<in> set (offsets_from (a + c) cs). a \<le> x"
    using offsets_from_lower[of _ "a + c" cs] by fastforce
  with Cons.IH[of "a + c"] show ?case by simp
qed

lemma sorted_wrt_scalar_le:
  "sorted_wrt scalar_le (map (\<lambda>n. Int_val (int n)) xs) = sorted xs"
  by (induction xs) auto

lemma packed_offsets_invariant:
  assumes "cs \<noteq> []"
  shows "offsets_invariant (sum_list cs) (length cs) (packed_offsets cs)"
  unfolding offsets_invariant_def packed_offsets_def
  by (simp add: offsets_from_length sorted_wrt_scalar_le offsets_from_sorted
        hd_map last_map offsets_from_nonempty offsets_from_hd offsets_from_last)

lemma store_extends_new_object:
  assumes "heap_lookup (host s) p = None"
  shows "store_extends s (s\<lparr>host := (p, x) # host s\<rparr>)"
  using assms by (auto simp: store_extends_def heap_lookup_Cons)

lemma store_extends_buffer:
  assumes "store_extends s s'" and "live_array s p"
  shows "buffer_of s' p = buffer_of s p"
proof -
  from assms(2) obtain arr where a: "deref_array s p = Inr arr"
    by (auto simp: live_array_def split: sum.splits)
  from store_extends_deref_array[OF assms(1) a] a show ?thesis
    by (simp add: buffer_of_def)
qed

lemma placed_fits:
  assumes "placed s s' co p" and "column_fits n co" and "p \<noteq> 0"
  shows "map_option length (array_values s' p) = Some n"
proof (cases co)
  case None
  with assms show ?thesis by (simp add: placed_def)
next
  case (Some col)
  with assms(1) have "holds_column s s' col p" by (simp add: placed_def)
  from holds_column_buffer[OF this] assms(2) Some show ?thesis
    by (simp add: column_fits_def)
qed

lemma placed_Some:
  "placed s s' (Some col) p \<Longrightarrow>
   p \<noteq> 0 \<and> heap_lookup (host s) p = None \<and> array_values s' p = Some (col_values col)"
  using holds_column_buffer[of s s' col p] by (simp add: placed_def holds_column_def)

lemma length6:
  assumes "length ps = 6"
  shows "\<exists>a b c d e f. ps = [a, b, c, d, e, f]"
proof -
  from assms obtain a p1 where "ps = a # p1" "length p1 = 5" by (cases ps) auto
  moreover then obtain b p2 where "p1 = b # p2" "length p2 = 4" by (cases p1) auto
  moreover then obtain c p3 where "p2 = c # p3" "length p3 = 3" by (cases p2) auto
  moreover then obtain d p4 where "p3 = d # p4" "length p4 = 2" by (cases p3) auto
  moreover then obtain e p5 where "p4 = e # p5" "length p5 = 1" by (cases p4) auto
  moreover then obtain f where "p5 = [f]" by (cases p5) auto
  ultimately show ?thesis by blast
qed

lemma produce_success:
  assumes "produce_edgelist s ex = Inr (Inr h, s')"
  shows "\<exists>a b c d e f s1.
           populatable ex \<and>
           new_arrays s (produced_columns ex) = (True, [a, b, c, d, e, f], s1) \<and>
           h = heap_fresh (host s1) \<and>
           s' = s1\<lparr>host := (h, Edgelist \<lparr>src = a, dst = b, wgt = c, edge_ids = d,
                                          edge_type_ids = e, subgraph_offsets = f\<rparr>) # host s1\<rparr>"
proof -
  have pop: "populatable ex"
    using assms by (cases "populatable ex") (simp_all add: produce_edgelist_def)
  obtain ok ps s1 where n: "new_arrays s (produced_columns ex) = (ok, ps, s1)"
    by (cases "new_arrays s (produced_columns ex)") auto
  have ok: "ok"
  proof (rule ccontr)
    assume "\<not> ok"
    with assms pop n show False
      by (cases "delete_arrays s1 (rev ps)") (simp_all add: produce_edgelist_def)
  qed
  from new_arrays_ok[OF n[unfolded eqTrueI[OF ok]]]
  have "list_all2 (placed s s1) (produced_columns ex) ps" by simp
  then have "length ps = 6"
    by (simp add: list_all2_lengthD[symmetric] produced_columns_def)
  from length6[OF this] obtain a b c d e f where ps: "ps = [a, b, c, d, e, f]" by blast
  from assms pop n ok ps show ?thesis
    by (auto simp: produce_edgelist_def heap_new_def)
qed

lemma new_array_None:
  "(new_array s c = None) = (device_capacity s < device_used (device s) + length (col_values c))"
  by (simp add: new_array_def device_alloc_def heap_new_def)

lemma new_array_used:
  assumes "new_array s c = Some (p, s1)"
  shows "device_used (device s1) = device_used (device s) + length (col_values c) \<and>
         device_capacity s1 = device_capacity s"
  using new_array_SomeD[OF assms] by (simp add: device_used_def)

lemma nonnull_mem: "(p \<in> set (nonnull ps)) = (p \<in> set ps \<and> p \<noteq> 0)"
  by (auto simp: nonnull_def)

lemma needed_all_None: "list_all (\<lambda>c. c = None) cs \<Longrightarrow> needed cs = 0"
  by (induction cs) (simp_all add: needed_def)

lemma needed_Cons:
  "needed (None # cs) = needed cs"
  "needed (Some c # cs) = length (col_values c) + needed cs"
  by (simp_all add: needed_def)

lemma new_arrays_succeeds:
  "fst (new_arrays s cs) =
     (device_used (device s) + needed cs \<le> device_capacity s \<or> list_all (\<lambda>c. c = None) cs)"
proof (induction s cs rule: new_arrays.induct)
  case (1 s)
  then show ?case by simp
next
  case (2 s cs)
  have "fst (new_arrays s (None # cs)) = fst (new_arrays s cs)"
    by (cases "new_arrays s cs") simp
  with "2.IH" show ?case by (simp add: needed_Cons)
next
  case (3 s c cs)
  show ?case
  proof (cases "new_array s c")
    case None
    then have "device_capacity s < device_used (device s) + length (col_values c)"
      by (simp add: new_array_None)
    with None show ?thesis by (simp add: needed_Cons)
  next
    case (Some r)
    obtain p s1 where r: "r = (p, s1)" by (cases r)
    from Some r have na: "new_array s c = Some (p, s1)" by simp
    from new_array_used[OF na] have u: "device_used (device s1) =
        device_used (device s) + length (col_values c)"
      and cp: "device_capacity s1 = device_capacity s" by simp_all
    from new_array_SomeD[OF na]
    have le: "device_used (device s) + length (col_values c) \<le> device_capacity s" by simp
    have "fst (new_arrays s (Some c # cs)) = fst (new_arrays s1 cs)"
      using na by (cases "new_arrays s1 cs") simp
    also have "\<dots> = (device_used (device s1) + needed cs \<le> device_capacity s1 \<or>
                     list_all (\<lambda>c. c = None) cs)"
      by (rule "3.IH"[OF na refl])
    also have "\<dots> = (device_used (device s) + needed (Some c # cs) \<le> device_capacity s)"
      using le needed_all_None[of cs] by (auto simp: u cp needed_Cons)
    finally show ?thesis by simp
  qed
qed

lemma produce_total:
  "\<exists>r s'. produce_edgelist s ex = Inr (r, s') \<and>
     ((\<exists>h. r = Inr h) =
        (populatable ex \<and>
         device_used (device s) + needed (produced_columns ex) \<le> device_capacity s))"
proof (cases "populatable ex")
  case False
  then show ?thesis by (simp add: produce_edgelist_def)
next
  case True
  obtain ok ps s1 where n: "new_arrays s (produced_columns ex) = (ok, ps, s1)"
    by (cases "new_arrays s (produced_columns ex)") auto
  have okc: "ok = (device_used (device s) + needed (produced_columns ex) \<le> device_capacity s)"
    using new_arrays_succeeds[of s "produced_columns ex"] n
    by (simp add: produced_columns_def)
  show ?thesis
  proof (cases ok)
    case False
    with n have "new_arrays s (produced_columns ex) = (False, ps, s1)" by simp
    from new_arrays_undo[OF this] have "delete_arrays s1 (rev ps) = Inr s" .
    with True n False okc show ?thesis by (simp add: produce_edgelist_def)
  next
    case ok: True
    with n have n': "new_arrays s (produced_columns ex) = (True, ps, s1)" by simp
    from new_arrays_ok[OF n'] have "list_all2 (placed s s1) (produced_columns ex) ps" by simp
    then have "length ps = 6"
      by (simp add: list_all2_lengthD[symmetric] produced_columns_def)
    from length6[OF this] obtain a b c d e f where ps: "ps = [a, b, c, d, e, f]" by blast
    with True n' ok okc show ?thesis by (simp add: produce_edgelist_def heap_new_def)
  qed
qed

lemma produce_well_formed:
  assumes "produce_edgelist s ex = Inr (Inr h, s')"
  shows "well_formed s' h (length (col_values (ex_sources ex))) (length (ex_counts ex)) \<and>
         heap_lookup (host s) h = None \<and>
         (\<exists>e. deref_edgelist s' h = Inr e \<and>
              array_values s' (subgraph_offsets e) = Some (packed_offsets (ex_counts ex)))"
proof -
  let ?N = "length (col_values (ex_sources ex))"
  let ?M = "length (ex_counts ex)"
  from produce_success[OF assms] obtain a b c d e f s1 where
    pop: "populatable ex"
    and n: "new_arrays s (produced_columns ex) = (True, [a, b, c, d, e, f], s1)"
    and h: "h = heap_fresh (host s1)"
    and s': "s' = s1\<lparr>host := (h, Edgelist \<lparr>src = a, dst = b, wgt = c, edge_ids = d,
                                          edge_type_ids = e, subgraph_offsets = f\<rparr>) # host s1\<rparr>"
    by blast
  define E where "E = \<lparr>src = a, dst = b, wgt = c, edge_ids = d,
                          edge_type_ids = e, subgraph_offsets = f\<rparr>"
  have s'E: "s' = s1\<lparr>host := (h, Edgelist E) # host s1\<rparr>" by (simp add: s' E_def)
  have hf: "heap_lookup (host s1) h = None" by (simp add: h)
  have h0: "h \<noteq> 0" by (simp add: h)
  from new_arrays_ok[OF n] have e1: "store_extends s s1"
    and pl1: "list_all2 (placed s s1) (produced_columns ex) [a, b, c, d, e, f]"
    and dp: "distinct (nonnull [a, b, c, d, e, f])"
    and db1: "distinct (map (buffer_of s1) (nonnull [a, b, c, d, e, f]))"
    by simp_all
  have e2: "store_extends s1 s'"
    unfolding s'E by (rule store_extends_new_object[OF hf])
  have pl: "list_all2 (placed s s') (produced_columns ex) [a, b, c, d, e, f]"
    by (rule placed_later[OF pl1 e2])
  then have pa: "placed s s' (Some (ex_sources ex)) a"
    and pb: "placed s s' (Some (ex_destinations ex)) b"
    and pc: "placed s s' (ex_weights ex) c"
    and pd: "placed s s' (ex_edge_ids ex) d"
    and pe: "placed s s' (ex_edge_type_ids ex) e"
    and pf: "placed s s' (Some \<lparr>col_type = SIZE_T, col_values = packed_offsets (ex_counts ex)\<rparr>) f"
    by (simp_all add: produced_columns_def)
  have de: "deref_edgelist s' h = Inr E"
    using h0 by (simp add: s'E deref_edgelist_def heap_lookup_Cons)
  have live: "live_array s' p" if "p \<in> set (nonnull [a, b, c, d, e, f])" for p
  proof -
    from placed_nonnull[OF pl that] obtain col where "holds_column s s' col p" by blast
    from holds_column_buffer[OF this] show ?thesis by simp
  qed
  have live1: "live_array s1 p" if "p \<in> set (nonnull [a, b, c, d, e, f])" for p
  proof -
    from placed_nonnull[OF pl1 that] obtain col where "holds_column s s1 col p" by blast
    from holds_column_buffer[OF this] show ?thesis by simp
  qed
  have "map (buffer_of s') (nonnull [a, b, c, d, e, f]) =
        map (buffer_of s1) (nonnull [a, b, c, d, e, f])"
    using store_extends_buffer[OF e2 live1] by (simp cong: map_cong)
  then have db: "distinct (map (buffer_of s') (nonnull [a, b, c, d, e, f]))"
    using db1 by (simp only:)
  from placed_Some[OF pa] placed_Some[OF pb] placed_Some[OF pf]
  have nz: "a \<noteq> 0" "b \<noteq> 0" "f \<noteq> 0"
    and va: "array_values s' a = Some (col_values (ex_sources ex))"
    and vf: "array_values s' f = Some (packed_offsets (ex_counts ex))"
    by simp_all
  have ow: "owned E = nonnull [a, b, c, d, e, f]"
    by (simp add: owned_nonnull E_def)
  have fE: "src E = a" "dst E = b" "subgraph_offsets E = f"
    by (simp_all add: E_def)
  have fN: "nonnull [src E, dst E, wgt E, edge_ids E, edge_type_ids E] = nonnull [a, b, c, d, e]"
    by (simp add: E_def)
  have la: "list_all (live_array s') (owned E)"
    unfolding ow using live by (simp only: list_all_iff) blast
  have le: "live_edgelist s' h"
    unfolding live_edgelist_def
    using nz la dp db by (simp add: de fE ow)
  from pop have fits: "column_fits ?N (Some (ex_sources ex))"
    "column_fits ?N (Some (ex_destinations ex))"
    "column_fits ?N (ex_weights ex)" "column_fits ?N (ex_edge_ids ex)"
    "column_fits ?N (ex_edge_type_ids ex)"
    and cnt: "ex_counts ex \<noteq> []" "sum_list (ex_counts ex) = ?N"
    by (simp_all add: populatable_def column_fits_def)
  have sz: "map_option length (array_values s' p) = Some ?N"
    if "p \<in> set (nonnull [a, b, c, d, e])" for p
  proof -
    from that have p0: "p \<noteq> 0" and "p = a \<or> p = b \<or> p = c \<or> p = d \<or> p = e"
      by (auto simp: nonnull_mem)
    then show ?thesis
      using placed_fits[OF pa fits(1)] placed_fits[OF pb fits(2)] placed_fits[OF pc fits(3)]
        placed_fits[OF pd fits(4)] placed_fits[OF pe fits(5)]
      by blast
  qed
  have oi: "offsets_invariant ?N ?M (packed_offsets (ex_counts ex))"
    using packed_offsets_invariant[OF cnt(1)] cnt(2) by simp
  have m1: "1 \<le> ?M" using cnt(1) by (cases "ex_counts ex") simp_all
  have lsz: "list_all (\<lambda>p. map_option length (array_values s' p) = Some ?N)
               (nonnull [src E, dst E, wgt E, edge_ids E, edge_type_ids E])"
    unfolding fN using sz by (simp only: list_all_iff) blast
  have "well_formed s' h ?N ?M"
    unfolding well_formed_def
    using le m1 lsz oi by (simp add: de fE(3) vf)
  moreover have "heap_lookup (host s) h = None"
    by (rule store_extends_host_None[OF e1 hf])
  moreover have "\<exists>e. deref_edgelist s' h = Inr e \<and>
              array_values s' (subgraph_offsets e) = Some (packed_offsets (ex_counts ex))"
    using de vf fE by simp
  ultimately show ?thesis by simp
qed

lemmas produce_eval =
  produce_edgelist_def produced_columns_def populatable_def column_fits_def new_array_def device_alloc_def
  device_used_def heap_new_def heap_fresh_def delete_array_def deref_array_def heap_lookup_def
  heap_delete_def packed_offsets_def

text \<open>
  C7: construction always returns, and it succeeds exactly when the data can populate a
  Result and the device has room for every field. When it fails, no handle is returned
  and the store is the one before the attempt: every array and buffer that had been
  allocated is released again. When it succeeds, the handle is new and holds a
  well-formed Result.
\<close>

theorem construction_all_or_nothing:
  "\<exists>r s'. produce_edgelist s ex = Inr (r, s') \<and>
     ((\<exists>h. r = Inr h) =
        (populatable ex \<and>
         device_used (device s) + needed (produced_columns ex) \<le> device_capacity s)) \<and>
     (case r of
        Inl err \<Rightarrow> s' = s
      | Inr h \<Rightarrow>
          heap_lookup (host s) h = None \<and>
          well_formed s' h (length (col_values (ex_sources ex))) (length (ex_counts ex)))"
proof -
  from produce_total[of s ex] obtain r s' where
    p: "produce_edgelist s ex = Inr (r, s')"
    and i: "(\<exists>h. r = Inr h) =
        (populatable ex \<and>
         device_used (device s) + needed (produced_columns ex) \<le> device_capacity s)"
    by blast
  have "case r of
        Inl err \<Rightarrow> s' = s
      | Inr h \<Rightarrow>
          heap_lookup (host s) h = None \<and>
          well_formed s' h (length (col_values (ex_sources ex))) (length (ex_counts ex))"
  proof (cases r)
    case (Inl err)
    with p produce_failure_restores[of s ex err s'] show ?thesis by simp
  next
    case (Inr h)
    with p produce_well_formed[of s ex h s'] show ?thesis by simp
  qed
  with p i show ?thesis by blast
qed

theorem construction_all_or_nothing_witness:
  "produce_edgelist tight_store round_trip_extraction = Inr (Inl Cannot_allocate, tight_store) \<and>
   (\<exists>h s'. produce_edgelist roomy_store round_trip_extraction = Inr (Inr h, s') \<and>
      heap_lookup (host roomy_store) h = None \<and> well_formed s' h 3 1)"
proof -
  have a: "produce_edgelist tight_store round_trip_extraction =
             Inr (Inl Cannot_allocate, tight_store)"
    by (simp add: produce_eval tight_store_def round_trip_extraction_def)
  have n: "populatable round_trip_extraction \<and>
           device_used (device roomy_store) + needed (produced_columns round_trip_extraction)
             \<le> device_capacity roomy_store"
    by (simp add: populatable_def column_fits_def round_trip_extraction_def roomy_store_def
          device_used_def needed_def produced_columns_def packed_offsets_def)
  have l: "length (col_values (ex_sources round_trip_extraction)) = 3"
    "length (ex_counts round_trip_extraction) = 1"
    by (simp_all add: round_trip_extraction_def)
  from construction_all_or_nothing[of roomy_store round_trip_extraction] n
  obtain h s' where "produce_edgelist roomy_store round_trip_extraction = Inr (Inr h, s')"
    and "heap_lookup (host roomy_store) h = None \<and>
         well_formed s' h (length (col_values (ex_sources round_trip_extraction)))
           (length (ex_counts round_trip_extraction))"
    by auto
  then have "\<exists>h s'. produce_edgelist roomy_store round_trip_extraction = Inr (Inr h, s') \<and>
      heap_lookup (host roomy_store) h = None \<and> well_formed s' h 3 1"
    unfolding l by blast
  with a show ?thesis by simp
qed

text \<open>
  C5: a Result the producer has built from \<open>M\<close> subgraphs with \<open>N\<close> edges in all is
  well-formed, and the View \<open>cugraph_edgelist_get_edge_offsets\<close> returns reads the
  offsets of the packing: \<open>M + 1\<close> elements, the first \<open>0\<close>, the last \<open>N\<close>,
  non-decreasing.
\<close>

theorem produced_offsets_invariant:
  assumes "produce_edgelist s ex = Inr (Inr h, s')"
  shows "well_formed s' h (length (col_values (ex_sources ex))) (length (ex_counts ex)) \<and>
         (\<exists>p s''. cugraph_edgelist_get_edge_offsets s' h = Inr (p, s'') \<and> p \<noteq> 0 \<and>
            view_values s'' p =
              Some (map (\<lambda>n. Int_val (int n)) (offsets_from 0 (ex_counts ex)))) \<and>
         length (offsets_from 0 (ex_counts ex)) = length (ex_counts ex) + 1 \<and>
         hd (offsets_from 0 (ex_counts ex)) = 0 \<and>
         last (offsets_from 0 (ex_counts ex)) = length (col_values (ex_sources ex)) \<and>
         sorted (offsets_from 0 (ex_counts ex))"
proof -
  from produce_well_formed[OF assms] obtain e where
    wf: "well_formed s' h (length (col_values (ex_sources ex))) (length (ex_counts ex))"
    and de: "deref_edgelist s' h = Inr e"
    and vs: "array_values s' (subgraph_offsets e) = Some (packed_offsets (ex_counts ex))"
    by blast
  from getter_roundtrip[OF de, of Edge_offsets "packed_offsets (ex_counts ex)"] vs
  have g: "\<exists>p s''. cugraph_edgelist_get_edge_offsets s' h = Inr (p, s'') \<and> p \<noteq> 0 \<and>
            view_values s'' p =
              Some (map (\<lambda>n. Int_val (int n)) (offsets_from 0 (ex_counts ex)))"
    by (auto simp: packed_offsets_def)
  from produce_success[OF assms] have "populatable ex" by blast
  then have "sum_list (ex_counts ex) = length (col_values (ex_sources ex))"
    by (simp add: populatable_def)
  then have "last (offsets_from 0 (ex_counts ex)) = length (col_values (ex_sources ex))"
    by (simp add: offsets_from_last)
  with wf g show ?thesis
    by (simp add: offsets_from_length offsets_from_hd offsets_from_sorted)
qed

theorem produced_offsets_invariant_witness:
  "\<exists>h s'. produce_edgelist roomy_store two_subgraph_extraction = Inr (Inr h, s') \<and>
     well_formed s' h 5 2 \<and>
     (\<exists>p s''. cugraph_edgelist_get_edge_offsets s' h = Inr (p, s'') \<and> p \<noteq> 0 \<and>
        view_values s'' p = Some [Int_val 0, Int_val 2, Int_val 5])"
proof -
  have "\<exists>h s'. produce_edgelist roomy_store two_subgraph_extraction = Inr (Inr h, s')"
    by (simp add: produce_eval roomy_store_def two_subgraph_extraction_def)
  then obtain h s' where
    p: "produce_edgelist roomy_store two_subgraph_extraction = Inr (Inr h, s')" by blast
  have o: "offsets_from 0 (ex_counts two_subgraph_extraction) = [0, 2, 5]"
    by (simp add: two_subgraph_extraction_def)
  have l: "length (col_values (ex_sources two_subgraph_extraction)) = 5"
    "length (ex_counts two_subgraph_extraction) = 2"
    by (simp_all add: two_subgraph_extraction_def)
  from produced_offsets_invariant[OF p] have
    "well_formed s' h 5 2 \<and>
     (\<exists>p s''. cugraph_edgelist_get_edge_offsets s' h = Inr (p, s'') \<and> p \<noteq> 0 \<and>
        view_values s'' p = Some [Int_val 0, Int_val 2, Int_val 5])"
    unfolding o l by simp
  with p show ?thesis by blast
qed

end
